theory Spec2Isabelle
  imports Main "HOL-Library.AList" "HOL-Library.Char_ord" "HOL-Library.List_Lexorder"
    "HOL-Library.Product_Lexorder" "HOL-Library.Sublist"
begin

section \<open>The prefix tree of \<^verbatim>\<open>Autocomplete_app.py\<close>\<close>

text \<open>
  The theory embeds the classes \<^verbatim>\<open>TrieNode\<close>, \<^verbatim>\<open>Trie\<close> and the layout pass of
  \<^verbatim>\<open>TrieVisualizer\<close>. The pygame shell (drawing, events, fonts) is not modelled.

  Modelling decisions:
  \<^item> A \<^verbatim>\<open>TrieNode\<close> object is a value of the datatype \<open>TrieNode\<close>; the fields keep their
    names, except \<^verbatim>\<open>char\<close>, \<^verbatim>\<open>word\<close>, \<^verbatim>\<open>x\<close>, \<^verbatim>\<open>y\<close>, which are \<open>node_char\<close>, \<open>node_word\<close>,
    \<open>node_x\<close>, \<open>node_y\<close>. \<^verbatim>\<open>word = None\<close> is \<open>node_word = None\<close>.
  \<^item> The dict \<^verbatim>\<open>children\<close> is an association list in insertion order, which is the
    iteration order of a Python dict. A new key is appended, an existing key is
    overwritten in place (\<open>AList.update\<close>).
  \<^item> Every node is reached by one reference only (its parent's dict), so a mutation of
    a node in place is the replacement of its entry in the parent's list.
  \<^item> A Python string is a \<open>string\<close>; \<open>char\<close> holds the code points below 256, and
    \<open>lower\<close> is \<^verbatim>\<open>str.lower\<close> on those (ASCII and Latin-1 capitals move up by 32,
    the multiplication sign 215 stays).
  \<^item> Python integers are \<open>int\<close>; \<^verbatim>\<open>//\<close> is \<open>div\<close> (both round towards minus infinity).
  \<^item> \<^verbatim>\<open>len(None)\<close> in the sort key raises \<^verbatim>\<open>TypeError\<close>; this is the only exception the
    modelled code can raise, and it is a value of the result of \<open>get_suggestions\<close>.
    The interpreter's recursion limit is not modelled.
\<close>

subsection \<open>Data\<close>

datatype TrieNode = TrieNode (node_char: char) (children: "(char \<times> TrieNode) list")
  (is_end_of_word: bool) (node_word: "string option") (node_x: int) (node_y: int)
  (is_path_node: bool) (is_in_subtree: bool)

datatype Trie = Trie (root: TrieNode)

datatype error = TypeError

record TrieVisualizer =
  level_height :: int
  horizontal_spacing :: int
  start_y :: int
  draw_area_width :: int

definition SCREEN_WIDTH :: int where
  "SCREEN_WIDTH = 1000"

text \<open>\<^verbatim>\<open>TrieNode.__init__(char)\<close>, \<^verbatim>\<open>Trie.__init__\<close> and \<^verbatim>\<open>TrieVisualizer.__init__\<close>.\<close>

definition new_node :: "char \<Rightarrow> TrieNode" where
  "new_node c = TrieNode c [] False None 0 0 False False"

definition trie_init :: Trie where
  "trie_init = Trie (new_node CHR ''*'')"

definition visualizer_init :: TrieVisualizer where
  "visualizer_init = \<lparr>level_height = 65, horizontal_spacing = 40, start_y = 100,
     draw_area_width = SCREEN_WIDTH\<rparr>"

subsection \<open>Lower case\<close>

definition lower_char :: "char \<Rightarrow> char" where
  "lower_char c =
     (let n = (of_char c :: nat)
      in if (65 \<le> n \<and> n \<le> 90) \<or> (192 \<le> n \<and> n \<le> 222 \<and> n \<noteq> 215)
         then char_of (n + 32) else c)"

definition lower :: "string \<Rightarrow> string" where
  "lower s = map lower_char s"

subsection \<open>\<^verbatim>\<open>Trie.insert\<close>\<close>

text \<open>
  \<open>insert_walk w rest node\<close> is the loop of \<^verbatim>\<open>insert\<close> with \<open>rest\<close> the characters still to
  walk and \<open>w\<close> the lowercased word stored at the end.
\<close>

fun insert_walk :: "string \<Rightarrow> string \<Rightarrow> TrieNode \<Rightarrow> TrieNode" where
  "insert_walk w [] (TrieNode c cs e wd x y p s) = TrieNode c cs True (Some w) x y p s"
| "insert_walk w (ch # rest) (TrieNode c cs e wd x y p s) =
     (let child = (case map_of cs ch of None \<Rightarrow> new_node ch | Some n \<Rightarrow> n)
      in TrieNode c (AList.update ch (insert_walk w rest child) cs) e wd x y p s)"

definition insert_word :: "string \<Rightarrow> Trie \<Rightarrow> Trie" where
  "insert_word word t =
     (if word = [] then t
      else Trie (insert_walk (lower word) (lower word) (root t)))"

subsection \<open>\<^verbatim>\<open>Trie.get_suggestions\<close> and \<^verbatim>\<open>Trie._collect_all_words\<close>\<close>

text \<open>The walk along the prefix; \<open>None\<close> is the early return at a missing edge.\<close>

fun walk :: "string \<Rightarrow> TrieNode \<Rightarrow> TrieNode option" where
  "walk [] node = Some node"
| "walk (ch # rest) node =
     (case map_of (children node) ch of None \<Rightarrow> None | Some n \<Rightarrow> walk rest n)"

text \<open>
  The list \<^verbatim>\<open>words\<close> is threaded through the calls. Its elements are the \<^verbatim>\<open>word\<close> fields
  as they are, so an element can be \<open>None\<close>.
\<close>

function collect_all_words ::
  "TrieNode \<Rightarrow> string option list \<Rightarrow> nat \<Rightarrow> string option list" where
  "collect_all_words node words max_words =
     (if length words \<ge> max_words then words
      else fold (\<lambda>ch acc. case map_of (children node) ch of
                            None \<Rightarrow> acc
                          | Some n \<Rightarrow> collect_all_words n acc max_words)
             (sort (map fst (children node)))
             (if is_end_of_word node then words @ [node_word node] else words))"
  by pat_completeness auto
termination
proof (relation "measure (\<lambda>(n, ws, m). size n)", goal_cases)
  case 1
  show ?case by simp
next
  case (2 node words max_words ch acc n)
  have "size v < Suc (size_list (size_prod (\<lambda>_. 0) size) cs)"
    if "(k, v) \<in> set cs" for k and v :: TrieNode and cs :: "(char \<times> TrieNode) list"
    using that by (induction cs) auto
  with 2 show ?case by (cases node) (auto dest!: map_of_SomeD)
qed

declare collect_all_words.simps [simp del]

definition get_suggestions :: "string \<Rightarrow> Trie \<Rightarrow> error + (string list \<times> TrieNode option)" where
  "get_suggestions pfx t =
     (if pfx = [] then Inr ([], None)
      else case walk (lower pfx) (root t) of
             None \<Rightarrow> Inr ([], None)
           | Some node \<Rightarrow>
               (case those (collect_all_words node [] 8) of
                  None \<Rightarrow> Inl TypeError
                | Some suggestions \<Rightarrow>
                    Inr (sort_key (\<lambda>x. (length x, x)) suggestions, Some node)))"

subsection \<open>\<^verbatim>\<open>Trie.highlight_path\<close>\<close>

fun reset_highlights :: "TrieNode \<Rightarrow> TrieNode" where
  "reset_highlights (TrieNode c cs e w x y p s) =
     TrieNode c (map (\<lambda>(k, n). (k, reset_highlights n)) cs) e w x y False False"

fun mark_suggestion_subtree :: "TrieNode \<Rightarrow> TrieNode" where
  "mark_suggestion_subtree (TrieNode c cs e w x y p s) =
     TrieNode c (map (\<lambda>(k, n). (k, mark_suggestion_subtree n)) cs) e w x y p True"

fun set_path_node :: "TrieNode \<Rightarrow> TrieNode" where
  "set_path_node (TrieNode c cs e w x y p s) = TrieNode c cs e w x y True s"

text \<open>
  \<open>mark_path\<close> is the loop of \<^verbatim>\<open>highlight_path\<close> followed by the call of
  \<^verbatim>\<open>_mark_suggestion_subtree\<close>: a node is marked as soon as the walk steps onto it, and a
  missing edge returns with the marks set so far.
\<close>

fun mark_path :: "string \<Rightarrow> TrieNode \<Rightarrow> TrieNode" where
  "mark_path [] node = mark_suggestion_subtree node"
| "mark_path (ch # rest) (TrieNode c cs e w x y p s) =
     (case map_of cs ch of
        None \<Rightarrow> TrieNode c cs e w x y p s
      | Some n \<Rightarrow>
          TrieNode c (AList.update ch (mark_path rest (set_path_node n)) cs) e w x y p s)"

definition highlight_path :: "string \<Rightarrow> Trie \<Rightarrow> Trie" where
  "highlight_path pfx t =
     (let r = reset_highlights (root t)
      in if pfx = [] then Trie r else Trie (mark_path (lower pfx) r))"

subsection \<open>\<^verbatim>\<open>TrieVisualizer.calculate_node_positions\<close>\<close>

text \<open>
  \<^verbatim>\<open>trie.root\<close> is an object, which is always true, so the guard at the head of
  \<^verbatim>\<open>calculate_node_positions\<close> never returns. \<^verbatim>\<open>leaf_counts\<close> is filled for every node
  before any position is written and is keyed by object identity, so
  \<^verbatim>\<open>leaf_counts[node]\<close> is \<open>get_leaf_count node\<close>. The children are sorted by their
  \<^verbatim>\<open>char\<close> with their keys kept beside them, and the child positioned in place is the
  entry of its key.
\<close>

fun get_leaf_count :: "TrieNode \<Rightarrow> int" where
  "get_leaf_count (TrieNode c cs e w x y p s) =
     (if cs = [] then 1 else sum_list (map (\<lambda>(k, n). get_leaf_count n) cs))"

function position_node :: "TrieVisualizer \<Rightarrow> TrieNode \<Rightarrow> int \<Rightarrow> int \<Rightarrow> TrieNode" where
  "position_node v (TrieNode c cs e w x0 y0 p s) x y =
     (let node_width = get_leaf_count (TrieNode c cs e w x0 y0 p s) * horizontal_spacing v;
          sorted_children = sort_key (\<lambda>(k, n). node_char n) cs
      in TrieNode c
           (snd (fold (\<lambda>(k, child) (current_x, acc).
                        (current_x + get_leaf_count child * horizontal_spacing v,
                         AList.update k
                           (position_node v child current_x (y + level_height v)) acc))
                   sorted_children (x, cs)))
           e w (x + node_width div 2) y p s)"
  by pat_completeness auto
termination
proof (relation "measure (\<lambda>(v, n, x, y). size n)", goal_cases)
  case 1
  show ?case by simp
next
  case (2 v c cs e w x0 y0 p s x y xa xb xc xd ya xe)
  have "size n < Suc (size_list (size_prod (\<lambda>_. 0) size) l)"
    if "(k, n) \<in> set l" for k and n :: TrieNode and l :: "(char \<times> TrieNode) list"
    using that by (induction l) auto
  with 2 show ?case by auto
qed

declare position_node.simps [simp del]

definition calculate_node_positions :: "TrieVisualizer \<Rightarrow> Trie \<Rightarrow> Trie" where
  "calculate_node_positions v t =
     (let root_leaves = get_leaf_count (root t);
          total_tree_width = root_leaves * horizontal_spacing v;
          start_x = (draw_area_width v - total_tree_width) div 2;
          start_x = (if start_x < 20 then 20 else start_x)
      in Trie (position_node v (root t) start_x (start_y v)))"

subsection \<open>Nodes of a tree\<close>

text \<open>
  \<open>nodes_at path node\<close> lists every node of the subtree of \<open>node\<close> with the characters of
  the edges from the root to it, \<open>path\<close> being those down to \<open>node\<close>.
\<close>

fun nodes_at :: "string \<Rightarrow> TrieNode \<Rightarrow> (string \<times> TrieNode) list" where
  "nodes_at path (TrieNode c cs e w x y p s) =
     (path, TrieNode c cs e w x y p s) # concat (map (\<lambda>(k, n). nodes_at (path @ [k]) n) cs)"

definition nodes :: "TrieNode \<Rightarrow> TrieNode list" where
  "nodes node = map snd (nodes_at [] node)"

text \<open>
  A list of children is a dict when its keys are distinct; \<^verbatim>\<open>insert\<close> stores a node under
  its own character.
\<close>

fun dict_ok :: "TrieNode \<Rightarrow> bool" where
  "dict_ok (TrieNode c cs e w x y p s) =
     (distinct (map fst cs) \<and> (\<forall>(k, n) \<in> set cs. node_char n = k \<and> dict_ok n))"

subsection \<open>The order of the suggestions and the invariant of the stored words\<close>

text \<open>
  The sort key of \<^verbatim>\<open>get_suggestions\<close> is the pair \<^verbatim>\<open>(len(x), x)\<close>; \<open>key_le\<close> is the order of
  two words under it: shorter first, and the lexicographic order of strings at equal
  length.
\<close>

definition key_le :: "string \<Rightarrow> string \<Rightarrow> bool" where
  "key_le a b = (length a < length b \<or> (length a = length b \<and> a \<le> b))"

text \<open>
  \<open>terminal_inv Q path node\<close>: at every terminal node of the subtree, \<open>Q\<close> holds of the
  characters on the way from the root and of the stored word. \<open>word_inv\<close> is the invariant
  of the data model: the stored word is that string of characters, and it is in lower
  case.
\<close>

definition terminal_inv ::
  "(string \<Rightarrow> string option \<Rightarrow> bool) \<Rightarrow> string \<Rightarrow> TrieNode \<Rightarrow> bool" where
  "terminal_inv Q path node =
     (\<forall>(q, n) \<in> set (nodes_at path node). is_end_of_word n \<longrightarrow> Q q (node_word n))"

definition word_inv :: "Trie \<Rightarrow> bool" where
  "word_inv t = terminal_inv (\<lambda>q w. w = Some q \<and> lower q = q) [] (root t)"


subsection \<open>The marks after a query\<close>

text \<open>
  \<open>matched pfx node\<close> is the leading part of \<open>pfx\<close> that the walk from \<open>node\<close> follows
  before the first missing edge; it is all of \<open>pfx\<close> when the walk succeeds.
  \<open>clear_below node\<close>: no node of the subtree is marked as in the suggestion subtree, and
  none but \<open>node\<close> itself is marked as on the path.
\<close>

fun matched :: "string \<Rightarrow> TrieNode \<Rightarrow> string" where
  "matched [] node = []"
| "matched (ch # rest) node =
     (case map_of (children node) ch of None \<Rightarrow> [] | Some n \<Rightarrow> ch # matched rest n)"

definition clear_below :: "TrieNode \<Rightarrow> bool" where
  "clear_below node =
     (\<forall>(q, n) \<in> set (nodes_at [] node). \<not> is_in_subtree n \<and> (q \<noteq> [] \<longrightarrow> \<not> is_path_node n))"

subsection \<open>The spans of the layout\<close>

text \<open>
  The layout is stated against the description of the position pass: a node is allotted
  a span that starts at some \<open>x\<close> and is as wide as its leaf count times the spacing; the
  span of a child starts where the spans of its siblings with smaller characters end,
  the first at the start of the parent's span. \<open>offset v cs k\<close> is the total width of
  the children in \<open>cs\<close> whose character is below \<open>k\<close>, and \<open>spec_span_start v node x q\<close> is
  the start of the span of the node at path \<open>q\<close> below \<open>node\<close>, whose own span starts at
  \<open>x\<close> (on a path that is not in the tree the walk stops where it is). \<open>start_x\<close> is the
  local variable of \<^verbatim>\<open>calculate_node_positions\<close>, the start of the root's span, and
  \<open>span_of v t q\<close> the start of the span of the node at \<open>q\<close> in the layout of \<open>t\<close>.
\<close>

definition offset :: "TrieVisualizer \<Rightarrow> (char \<times> TrieNode) list \<Rightarrow> char \<Rightarrow> int" where
  "offset v cs k =
     sum_list (map (\<lambda>(k', n). get_leaf_count n * horizontal_spacing v)
       (filter (\<lambda>(k', n). k' < k) cs))"

fun spec_span_start :: "TrieVisualizer \<Rightarrow> TrieNode \<Rightarrow> int \<Rightarrow> string \<Rightarrow> int" where
  "spec_span_start v node x [] = x"
| "spec_span_start v node x (k # q) =
     (case map_of (children node) k of
        None \<Rightarrow> x
      | Some child \<Rightarrow> spec_span_start v child (x + offset v (children node) k) q)"

definition start_x :: "TrieVisualizer \<Rightarrow> Trie \<Rightarrow> int" where
  "start_x v t =
     max 20 ((draw_area_width v - get_leaf_count (root t) * horizontal_spacing v) div 2)"

definition span_of :: "TrieVisualizer \<Rightarrow> Trie \<Rightarrow> string \<Rightarrow> int" where
  "span_of v t q = spec_span_start v (root t) (start_x v t) q"

section \<open>Properties\<close>

lemma TrieNode_induct [case_names TrieNode]:
  assumes "\<And>c cs e w x y p s.
             (\<And>k n. (k, n) \<in> set cs \<Longrightarrow> P n) \<Longrightarrow> P (TrieNode c cs e w x y p s)"
  shows "P t"
  by (induction t) (rule assms, auto simp: snds.simps)

subsection \<open>Nodes and paths\<close>

lemma terminal_inv_node:
  "terminal_inv Q path (TrieNode c cs e w x y p s) =
     ((e \<longrightarrow> Q path w) \<and> (\<forall>(k, n) \<in> set cs. terminal_inv Q (path @ [k]) n))"
  by (auto simp: terminal_inv_def)

lemma nodes_at_self: "(path, node) \<in> set (nodes_at path node)"
  by (cases node) simp

lemma nodes_at_child:
  "(k, n) \<in> set (children node) \<Longrightarrow> set (nodes_at (path @ [k]) n) \<subseteq> set (nodes_at path node)"
  by (cases node) auto

lemma nodes_at_prefix: "(q, n) \<in> set (nodes_at path node) \<Longrightarrow> prefix path q"
proof (induction node arbitrary: path rule: TrieNode_induct)
  case (TrieNode c cs e w x y p s)
  from TrieNode.prems have "q = path \<or> (\<exists>k m. (k, m) \<in> set cs \<and> (q, n) \<in> set (nodes_at (path @ [k]) m))"
    by auto
  then show ?case
  proof
    assume "q = path" then show ?thesis by simp
  next
    assume "\<exists>k m. (k, m) \<in> set cs \<and> (q, n) \<in> set (nodes_at (path @ [k]) m)"
    then obtain k m where "(k, m) \<in> set cs" "(q, n) \<in> set (nodes_at (path @ [k]) m)" by blast
    then have "prefix (path @ [k]) q" by (rule TrieNode.IH)
    then show ?thesis by (rule append_prefixD)
  qed
qed

lemma walk_nodes_at:
  "walk r node = Some m \<Longrightarrow> set (nodes_at (path @ r) m) \<subseteq> set (nodes_at path node)"
proof (induction r arbitrary: node path)
  case Nil
  then show ?case by simp
next
  case (Cons ch rest)
  from Cons.prems obtain n where n: "map_of (children node) ch = Some n" "walk rest n = Some m"
    by (auto split: option.splits)
  from n(2) have "set (nodes_at ((path @ [ch]) @ rest) m) \<subseteq> set (nodes_at (path @ [ch]) n)"
    by (rule Cons.IH)
  moreover from n(1) have "set (nodes_at (path @ [ch]) n) \<subseteq> set (nodes_at path node)"
    by (intro nodes_at_child map_of_SomeD)
  ultimately show ?case by simp
qed

lemma collect_elems:
  "\<forall>x \<in> set (collect_all_words node words m).
     x \<in> set words \<or>
     (\<exists>q n. (q, n) \<in> set (nodes_at path node) \<and> is_end_of_word n \<and> x = node_word n)"
proof (induction node words m arbitrary: path rule: collect_all_words.induct)
  case (1 node words m)
  let ?R = "\<lambda>acc. \<forall>x \<in> set acc. x \<in> set words \<or>
     (\<exists>q n. (q, n) \<in> set (nodes_at path node) \<and> is_end_of_word n \<and> x = node_word n)"
  show ?case
  proof (cases "m \<le> length words")
    case True
    then show ?thesis by (subst collect_all_words.simps) simp
  next
    case False
    let ?start = "if is_end_of_word node then words @ [node_word node] else words"
    let ?step = "\<lambda>ch acc. case map_of (children node) ch of
                    None \<Rightarrow> acc | Some n \<Rightarrow> collect_all_words n acc m"
    have "?R (fold ?step (sort (map fst (children node))) ?start)"
    proof (rule fold_invariant [where Q = "\<lambda>ch. ch \<in> set (sort (map fst (children node)))"
          and P = ?R])
      show "?R ?start" using nodes_at_self [of path node] by auto
    next
      fix ch and acc :: "string option list"
      assume ch: "ch \<in> set (sort (map fst (children node)))" and acc: "?R acc"
      show "?R (?step ch acc)"
      proof (cases "map_of (children node) ch")
        case None
        with acc show ?thesis by simp
      next
        case (Some n)
        have sub: "set (nodes_at (path @ [ch]) n) \<subseteq> set (nodes_at path node)"
          using Some by (intro nodes_at_child map_of_SomeD)
        have "\<forall>x \<in> set (collect_all_words n acc m). x \<in> set acc \<or>
           (\<exists>q n'. (q, n') \<in> set (nodes_at (path @ [ch]) n) \<and> is_end_of_word n' \<and> x = node_word n')"
          by (rule "1.IH" [OF False ch Some])
        with acc sub show ?thesis unfolding Some by (auto; blast)
      qed
    qed simp
    with False show ?thesis by (subst collect_all_words.simps) simp
  qed
qed

lemma those_Some_iff: "(\<exists>ys. those xs = Some ys) = (None \<notin> set xs)"
  by (induction xs) (auto split: option.splits)

lemma those_set: "those xs = Some ys \<Longrightarrow> set xs = Some ` set ys"
  by (induction xs arbitrary: ys) (auto split: option.splits)

lemma collect_length:
  "length words \<le> m \<Longrightarrow> length (collect_all_words node words m) \<le> m"
proof (induction node words m rule: collect_all_words.induct)
  case (1 node words m)
  show ?case
  proof (cases "m \<le> length words")
    case True
    with "1.prems" show ?thesis by (subst collect_all_words.simps) simp
  next
    case False
    let ?start = "if is_end_of_word node then words @ [node_word node] else words"
    let ?step = "\<lambda>ch acc. case map_of (children node) ch of
                    None \<Rightarrow> acc | Some n \<Rightarrow> collect_all_words n acc m"
    have start: "length ?start \<le> m" using False by simp
    have "length (fold ?step (sort (map fst (children node))) ?start) \<le> m"
    proof (rule fold_invariant [where Q = "\<lambda>ch. ch \<in> set (sort (map fst (children node)))"
          and P = "\<lambda>acc. length acc \<le> m"])
      show "length ?start \<le> m" by (rule start)
    next
      fix ch and acc :: "string option list"
      assume "ch \<in> set (sort (map fst (children node)))" "length acc \<le> m"
      then show "length (?step ch acc) \<le> m"
        using "1.IH" [OF False] by (auto split: option.splits)
    qed simp
    with False show ?thesis by (subst collect_all_words.simps) simp
  qed
qed

lemma key_le_iff: "key_le a b = ((length a, a) \<le> (length b, b))"
  by (auto simp: key_le_def less_eq_prod_def)

lemma sorted_by_key: "sorted_wrt key_le (sort_key (\<lambda>x. (length x, x)) ws)"
proof -
  have "sorted (map (\<lambda>x. (length x, x)) (sort_key (\<lambda>x. (length x, x)) ws))"
    by (rule sorted_sort_key)
  then show ?thesis
    unfolding sorted_map key_le_iff [abs_def] .
qed

lemma those_length: "those xs = Some ys \<Longrightarrow> length ys = length xs"
  by (induction xs arbitrary: ys) (auto split: option.splits)

subsection \<open>Insertion is idempotent\<close>

lemma insert_walk_idem: "insert_walk w r (insert_walk w r n) = insert_walk w r n"
proof (induction r arbitrary: n)
  case Nil
  then show ?case by (cases n) simp
next
  case (Cons ch rest)
  show ?case
    by (cases n) (simp add: Let_def Cons.IH update_conv' split: option.splits)
qed

text \<open>
  Claim C8. Inserting a word a second time, or any further number of times, gives the
  very tree the first insertion gave: the same nodes in the same order, with the same
  terminal flags and stored words (and the same coordinates and marks).
\<close>

theorem insert_idempotent:
  "insert_word w (insert_word w t) = insert_word w t \<and>
   (insert_word w ^^ Suc n) t = insert_word w t"
proof -
  have once: "insert_word w (insert_word w u) = insert_word w u" for u
    by (simp add: insert_word_def insert_walk_idem)
  have "(insert_word w ^^ Suc n) t = insert_word w t"
    by (induction n) (simp_all add: once)
  with once show ?thesis by simp
qed

subsection \<open>The reset and the empty prefix\<close>

lemma reset_clear_at:
  "(q, n) \<in> set (nodes_at path (reset_highlights t)) \<Longrightarrow>
     \<not> is_path_node n \<and> \<not> is_in_subtree n"
proof (induction t arbitrary: path rule: TrieNode_induct)
  case (TrieNode c cs e w x y p s)
  then show ?case by fastforce
qed

lemma reset_clear:
  "n \<in> set (nodes (reset_highlights t)) \<Longrightarrow> \<not> is_path_node n \<and> \<not> is_in_subtree n"
  unfolding nodes_def using reset_clear_at by auto

text \<open>
  Claim C4. Whatever the tree holds, \<open>get_suggestions\<close> on the empty prefix returns the
  empty list and no node, and \<open>highlight_path\<close> on the empty prefix leaves both marks
  false at every node.
\<close>

theorem empty_prefix:
  "get_suggestions [] t = Inr ([], None) \<and>
   (\<forall>n \<in> set (nodes (root (highlight_path [] t))).
      \<not> is_path_node n \<and> \<not> is_in_subtree n)"
  using reset_clear by (simp add: get_suggestions_def highlight_path_def)

text \<open>
  The instance: the tree holding \<open>car\<close> with the path of \<open>c\<close> marked by an earlier query;
  all four of its nodes are cleared.
\<close>

theorem empty_prefix_witness:
  "get_suggestions [] (highlight_path ''c'' (insert_word ''Car'' trie_init)) = Inr ([], None) \<and>
   is_path_node (the (walk ''c''
     (root (highlight_path ''c'' (insert_word ''Car'' trie_init))))) \<and>
   map (\<lambda>n. (is_path_node n, is_in_subtree n))
     (nodes (root (highlight_path []
       (highlight_path ''c'' (insert_word ''Car'' trie_init))))) =
   [(False, False), (False, False), (False, False), (False, False)]"
  using empty_prefix [of "highlight_path ''c'' (insert_word ''Car'' trie_init)"]
  by code_simp

subsection \<open>The suggestions: at most eight, in key order\<close>

lemma suggestions_shape:
  "get_suggestions pfx t = Inr (ws, nd) \<Longrightarrow> length ws \<le> 8 \<and> sorted_wrt key_le ws"
  using collect_length [of "[]" 8]
  by (auto simp: get_suggestions_def sorted_by_key dest!: those_length
      split: if_splits option.splits)

lemma collect_no_None:
  assumes inv: "terminal_inv (\<lambda>q w. w \<noteq> None) path node"
  shows "None \<notin> set (collect_all_words node [] m)"
proof
  assume "None \<in> set (collect_all_words node [] m)"
  with collect_elems [of node "[]" m path]
  obtain q n where "(q, n) \<in> set (nodes_at path node)" "is_end_of_word n" "None = node_word n"
    by auto
  with inv show False by (auto simp: terminal_inv_def)
qed

lemma terminal_inv_mono:
  "terminal_inv Q path node \<Longrightarrow> (\<And>q w. Q q w \<Longrightarrow> R q w) \<Longrightarrow> terminal_inv R path node"
  by (auto simp: terminal_inv_def)

lemma terminal_inv_walk:
  "terminal_inv Q path node \<Longrightarrow> walk r node = Some m \<Longrightarrow> terminal_inv Q (path @ r) m"
  using walk_nodes_at [of r node m path] by (auto simp: terminal_inv_def)

lemma suggestions_return:
  assumes "word_inv t"
  shows "\<exists>ws nd. get_suggestions pfx t = Inr (ws, nd)"
proof (cases "pfx = [] \<or> walk (lower pfx) (root t) = None")
  case True
  then show ?thesis by (auto simp: get_suggestions_def)
next
  case False
  then obtain node where node: "walk (lower pfx) (root t) = Some node" by auto
  from assms have "terminal_inv (\<lambda>q w. w \<noteq> None) [] (root t)"
    unfolding word_inv_def by (rule terminal_inv_mono) simp
  from terminal_inv_walk [OF this node]
  have "None \<notin> set (collect_all_words node [] 8)"
    by (rule collect_no_None)
  then obtain ys where "those (collect_all_words node [] 8) = Some ys"
    using those_Some_iff by blast
  with False node show ?thesis by (simp add: get_suggestions_def)
qed

text \<open>
  Claim C3. For every tree and every prefix, a result of \<open>get_suggestions\<close> holds at most
  8 words and is in the order of the key (length, then the word itself); on a tree that
  satisfies the invariant of the stored words the call does return a result; and after
  inserting \<open>car\<close>, \<open>cat\<close>, \<open>cara\<close> into the empty tree, the query \<open>ca\<close> returns
  \<open>car\<close>, \<open>cat\<close>, \<open>cara\<close> in this order, with the node of \<open>ca\<close>.
\<close>

theorem suggestions_bounded_sorted:
  "(\<forall>ws nd. get_suggestions pfx t = Inr (ws, nd) \<longrightarrow> length ws \<le> 8 \<and> sorted_wrt key_le ws) \<and>
   (word_inv t \<longrightarrow> (\<exists>ws nd. get_suggestions pfx t = Inr (ws, nd))) \<and>
   get_suggestions ''ca'' (fold insert_word [''car'', ''cat'', ''cara''] trie_init) =
     Inr ([''car'', ''cat'', ''cara''],
          walk ''ca'' (root (fold insert_word [''car'', ''cat'', ''cara''] trie_init)))"
proof (intro conjI allI impI)
  show "get_suggestions ''ca'' (fold insert_word [''car'', ''cat'', ''cara''] trie_init) =
     Inr ([''car'', ''cat'', ''cara''],
          walk ''ca'' (root (fold insert_word [''car'', ''cat'', ''cara''] trie_init)))"
    by code_simp
qed (auto dest: suggestions_shape suggestions_return)

text \<open>The instance: the same tree, queried with the capital \<open>C\<close>.\<close>

theorem suggestions_bounded_sorted_witness:
  "word_inv (fold insert_word [''car'', ''cat'', ''cara''] trie_init) \<and>
   (\<exists>ws nd. get_suggestions ''C'' (fold insert_word [''car'', ''cat'', ''cara''] trie_init)
        = Inr (ws, nd) \<and> length ws \<le> 8 \<and> sorted_wrt key_le ws)"
proof -
  have inv: "word_inv (fold insert_word [''car'', ''cat'', ''cara''] trie_init)"
    by code_simp
  with suggestions_bounded_sorted
    [of "''C''" "fold insert_word [''car'', ''cat'', ''cara''] trie_init"]
  show ?thesis by blast
qed

text \<open>
  Claim C2. The cap of 8 cuts the collection before the sort. The tree holds
  \<open>aba\<close>, ..., \<open>abh\<close> and \<open>ac\<close>, nine words below the node of \<open>a\<close>. The traversal in
  ascending character order collects the eight words below \<open>b\<close> and returns at once from
  the node of \<open>c\<close>, so \<open>ac\<close>, which precedes each returned word under the key, is not in
  the result.
\<close>

theorem cap_before_sort:
  "get_suggestions ''a''
     (fold insert_word [''aba'', ''abb'', ''abc'', ''abd'', ''abe'', ''abf'', ''abg'', ''abh'',
        ''ac''] trie_init) =
     Inr ([''aba'', ''abb'', ''abc'', ''abd'', ''abe'', ''abf'', ''abg'', ''abh''],
       walk ''a'' (root (fold insert_word [''aba'', ''abb'', ''abc'', ''abd'', ''abe'', ''abf'',
         ''abg'', ''abh'', ''ac''] trie_init))) \<and>
   map node_word (filter is_end_of_word (nodes (the (walk ''a''
     (root (fold insert_word [''aba'', ''abb'', ''abc'', ''abd'', ''abe'', ''abf'', ''abg'',
        ''abh'', ''ac''] trie_init)))))) =
     [Some ''aba'', Some ''abb'', Some ''abc'', Some ''abd'', Some ''abe'', Some ''abf'',
      Some ''abg'', Some ''abh'', Some ''ac''] \<and>
   ''ac'' \<notin> set [''aba'', ''abb'', ''abc'', ''abd'', ''abe'', ''abf'', ''abg'', ''abh''] \<and>
   list_all (\<lambda>v. key_le ''ac'' v \<and> ''ac'' \<noteq> v)
     [''aba'', ''abb'', ''abc'', ''abd'', ''abe'', ''abf'', ''abg'', ''abh'']"
  by code_simp

subsection \<open>The invariant of the stored words\<close>

lemma lower_char_idem: "lower_char (lower_char c) = lower_char c"
  by (auto simp: lower_char_def Let_def)

lemma lower_idem: "lower (lower s) = lower s"
  by (simp add: lower_def lower_char_idem)

lemma set_update_subset: "set (AList.update k v al) \<subseteq> insert (k, v) (set al)"
  by (induction al) auto

lemma terminal_inv_new_node: "terminal_inv Q path (new_node c)"
  by (simp add: new_node_def terminal_inv_node)

lemma terminal_inv_insert_walk:
  "terminal_inv Q path node \<Longrightarrow> Q w (Some w) \<Longrightarrow> path @ rest = w \<Longrightarrow>
     terminal_inv Q path (insert_walk w rest node)"
proof (induction rest arbitrary: path node)
  case Nil
  then show ?case by (cases node) (simp add: terminal_inv_node)
next
  case (Cons ch rest)
  obtain c cs e wd x y p s where node: "node = TrieNode c cs e wd x y p s" by (cases node)
  let ?child = "case map_of cs ch of None \<Rightarrow> new_node ch | Some n \<Rightarrow> n"
  have "terminal_inv Q (path @ [ch]) ?child"
    using Cons.prems(1) unfolding node
    by (auto simp: terminal_inv_node terminal_inv_new_node split: option.splits
        dest!: map_of_SomeD)
  then have "terminal_inv Q (path @ [ch]) (insert_walk w rest ?child)"
    using Cons.prems(2,3) by (intro Cons.IH) simp_all
  with Cons.prems(1) show ?case
    unfolding node using set_update_subset [of ch "insert_walk w rest ?child" cs]
    by (auto simp: terminal_inv_node Let_def)
qed

lemma terminal_inv_insert_word:
  "terminal_inv Q [] (root t) \<Longrightarrow> Q (lower w) (Some (lower w)) \<Longrightarrow>
     terminal_inv Q [] (root (insert_word w t))"
  by (simp add: insert_word_def terminal_inv_insert_walk)

lemma nodes_at_reset:
  "nodes_at path (reset_highlights t) = map (\<lambda>(q, n). (q, reset_highlights n)) (nodes_at path t)"
proof (induction t arbitrary: path rule: TrieNode_induct)
  case (TrieNode c cs e w x y p s)
  then show ?case
    by (auto simp: map_concat comp_def case_prod_unfold intro!: arg_cong [where f = concat])
qed

lemma nodes_at_mark:
  "nodes_at path (mark_suggestion_subtree t) =
     map (\<lambda>(q, n). (q, mark_suggestion_subtree n)) (nodes_at path t)"
proof (induction t arbitrary: path rule: TrieNode_induct)
  case (TrieNode c cs e w x y p s)
  then show ?case
    by (auto simp: map_concat comp_def case_prod_unfold intro!: arg_cong [where f = concat])
qed

lemma reset_fields [simp]:
  "is_end_of_word (reset_highlights n) = is_end_of_word n"
  "node_word (reset_highlights n) = node_word n"
  "node_char (reset_highlights n) = node_char n"
  "node_x (reset_highlights n) = node_x n"
  "node_y (reset_highlights n) = node_y n"
  by (cases n; simp)+

lemma mark_fields [simp]:
  "is_end_of_word (mark_suggestion_subtree n) = is_end_of_word n"
  "node_word (mark_suggestion_subtree n) = node_word n"
  "node_char (mark_suggestion_subtree n) = node_char n"
  "is_path_node (mark_suggestion_subtree n) = is_path_node n"
  "is_in_subtree (mark_suggestion_subtree n)"
  by (cases n; simp)+

lemma terminal_inv_reset:
  "terminal_inv Q path node \<Longrightarrow> terminal_inv Q path (reset_highlights node)"
  by (auto simp: terminal_inv_def nodes_at_reset)

lemma terminal_inv_mark:
  "terminal_inv Q path node \<Longrightarrow> terminal_inv Q path (mark_suggestion_subtree node)"
  by (auto simp: terminal_inv_def nodes_at_mark)

lemma terminal_inv_set_path:
  "terminal_inv Q path node \<Longrightarrow> terminal_inv Q path (set_path_node node)"
  by (cases node) (simp add: terminal_inv_node)

lemma terminal_inv_mark_path:
  "terminal_inv Q path node \<Longrightarrow> terminal_inv Q path (mark_path r node)"
proof (induction r arbitrary: path node)
  case Nil
  then show ?case by (simp add: terminal_inv_mark)
next
  case (Cons ch rest)
  obtain c cs e wd x y p s where node: "node = TrieNode c cs e wd x y p s" by (cases node)
  show ?case
  proof (cases "map_of cs ch")
    case None
    with Cons.prems show ?thesis by (simp add: node)
  next
    case (Some n)
    then have "terminal_inv Q (path @ [ch]) n"
      using Cons.prems unfolding node by (auto simp: terminal_inv_node dest!: map_of_SomeD)
    then have "terminal_inv Q (path @ [ch]) (mark_path rest (set_path_node n))"
      by (intro Cons.IH terminal_inv_set_path)
    with Cons.prems Some show ?thesis
      unfolding node using set_update_subset [of ch "mark_path rest (set_path_node n)" cs]
      by (auto simp: terminal_inv_node)
  qed
qed

lemma terminal_inv_highlight:
  "terminal_inv Q [] (root t) \<Longrightarrow> terminal_inv Q [] (root (highlight_path pfx t))"
  by (simp add: highlight_path_def Let_def terminal_inv_reset terminal_inv_mark_path)

lemma terminal_inv_position_node:
  "terminal_inv Q path node \<Longrightarrow> terminal_inv Q path (position_node v node x y)"
proof (induction v node x y arbitrary: path rule: position_node.induct)
  case (1 v c cs e w x0 y0 p s x y)
  let ?P = "\<lambda>(cur :: int, acc). \<forall>(k, n) \<in> set acc. terminal_inv Q (path @ [k]) n"
  let ?step = "\<lambda>(k, child) (current_x, acc).
       (current_x + get_leaf_count child * horizontal_spacing v,
        AList.update k (position_node v child current_x (y + level_height v)) acc)"
  let ?sorted = "sort_key (\<lambda>(k, n). node_char n) cs"
  have "?P (fold ?step ?sorted (x, cs))"
  proof (rule fold_invariant [where Q = "\<lambda>kc. kc \<in> set ?sorted" and P = ?P])
    show "?P (x, cs)" using "1.prems" by (auto simp: terminal_inv_node)
  next
    fix kc st
    assume kc: "kc \<in> set ?sorted" and st: "?P st"
    obtain k child where kc_eq: "kc = (k, child)" by (cases kc)
    obtain cur acc where st_eq: "st = (cur, acc)" by (cases st)
    from kc have mem: "(k, child) \<in> set ?sorted" unfolding kc_eq .
    then have "(k, child) \<in> set cs" by simp
    with "1.prems" have "terminal_inv Q (path @ [k]) child" by (auto simp: terminal_inv_node)
    then have "terminal_inv Q (path @ [k]) (position_node v child cur (y + level_height v))"
      by (rule "1.IH" [OF refl refl mem refl])
    with st show "?P (?step kc st)"
      unfolding kc_eq st_eq
      using set_update_subset [of k "position_node v child cur (y + level_height v)" acc]
      by auto
  qed simp
  with "1.prems" show ?case
    by (simp add: position_node.simps [of v c cs] Let_def terminal_inv_node case_prod_unfold)
qed

lemma terminal_inv_layout:
  "terminal_inv Q [] (root t) \<Longrightarrow> terminal_inv Q [] (root (calculate_node_positions v t))"
  by (simp add: calculate_node_positions_def Let_def terminal_inv_position_node)

text \<open>
  Claim C9. At every terminal node the stored word is the string of the edge characters
  from the root to the node, and this string is in lower case. The invariant holds of
  the tree of \<^verbatim>\<open>Trie()\<close> and is kept by every operation that changes the tree:
  \<open>insert_word\<close>, \<open>highlight_path\<close> and \<open>calculate_node_positions\<close>
  (\<open>get_suggestions\<close> changes nothing).
\<close>

theorem word_inv_preserved:
  "word_inv trie_init \<and>
   (word_inv t \<longrightarrow> word_inv (insert_word w t)) \<and>
   (word_inv t \<longrightarrow> word_inv (highlight_path pfx t)) \<and>
   (word_inv t \<longrightarrow> word_inv (calculate_node_positions v t))"
  unfolding word_inv_def
  by (simp add: terminal_inv_insert_word terminal_inv_highlight terminal_inv_layout lower_idem
      trie_init_def terminal_inv_new_node)

text \<open>The instance: the tree holding \<open>car\<close>, with \<open>Cat\<close> inserted, \<open>c\<close> marked, or laid out.\<close>

theorem word_inv_preserved_witness:
  "word_inv (insert_word ''Car'' trie_init) \<and>
   word_inv (insert_word ''Cat'' (insert_word ''Car'' trie_init)) \<and>
   word_inv (highlight_path ''c'' (insert_word ''Car'' trie_init)) \<and>
   word_inv (calculate_node_positions visualizer_init (insert_word ''Car'' trie_init))"
proof -
  have inv: "word_inv (insert_word ''Car'' trie_init)"
    by code_simp
  with word_inv_preserved
    [of "insert_word ''Car'' trie_init" "''Cat''" "''c''" visualizer_init]
  show ?thesis by blast
qed

subsection \<open>The suggestions are inserted words below the prefix\<close>

lemma terminal_inv_fold_insert:
  "terminal_inv (\<lambda>q w. w = Some q \<and> q \<in> S) [] (root t) \<Longrightarrow>
     terminal_inv (\<lambda>q w. w = Some q \<and> q \<in> S \<union> lower ` set ws) [] (root (fold insert_word ws t))"
proof (induction ws arbitrary: t S)
  case Nil
  then show ?case by simp
next
  case (Cons a ws)
  from Cons.prems
  have "terminal_inv (\<lambda>q w. w = Some q \<and> q \<in> insert (lower a) S) [] (root t)"
    by (rule terminal_inv_mono) simp
  then have "terminal_inv (\<lambda>q w. w = Some q \<and> q \<in> insert (lower a) S) [] (root (insert_word a t))"
    by (rule terminal_inv_insert_word) simp
  from Cons.IH [OF this] show ?case by simp
qed

lemma collect_words_below:
  assumes inv: "terminal_inv Q path node"
    and coll: "those (collect_all_words node [] m) = Some ys"
    and w: "w \<in> set ys"
  shows "prefix path w \<and> Q w (Some w) \<or> (\<exists>q. prefix path q \<and> Q q (Some w))"
proof -
  from those_set [OF coll] w have "Some w \<in> set (collect_all_words node [] m)" by auto
  with collect_elems [of node "[]" m path]
  obtain q n where qn: "(q, n) \<in> set (nodes_at path node)" "is_end_of_word n"
    "Some w = node_word n" by auto
  from qn(1) have "prefix path q" by (rule nodes_at_prefix)
  moreover from inv qn have "Q q (Some w)" by (auto simp: terminal_inv_def)
  ultimately show ?thesis by blast
qed

text \<open>
  Claim C10. On the tree built by inserting the words \<open>ws\<close> in turn into the empty tree,
  \<open>get_suggestions\<close> returns a result for every prefix, and every word of the result
  begins with the lowercased prefix and is the lower case of one of the inserted words.
\<close>

theorem search_sound:
  "\<exists>res nd. get_suggestions pfx (fold insert_word ws trie_init) = Inr (res, nd) \<and>
     (\<forall>w \<in> set res. prefix (lower pfx) w \<and> w \<in> lower ` set ws)"
proof -
  let ?t = "fold insert_word ws trie_init"
  let ?Q = "\<lambda>q w. w = Some q \<and> q \<in> lower ` set ws"
  have "terminal_inv (\<lambda>q w. w = Some q \<and> q \<in> {}) [] (root trie_init)"
    by (simp add: trie_init_def terminal_inv_new_node)
  from terminal_inv_fold_insert [OF this, of ws]
  have inv: "terminal_inv ?Q [] (root ?t)" by simp
  show ?thesis
  proof (cases "pfx = [] \<or> walk (lower pfx) (root ?t) = None")
    case True
    then show ?thesis by (auto simp: get_suggestions_def)
  next
    case False
    then obtain node where node: "walk (lower pfx) (root ?t) = Some node" by auto
    from terminal_inv_walk [OF inv node]
    have inv': "terminal_inv ?Q (lower pfx) node" by simp
    then have "terminal_inv (\<lambda>q w. w \<noteq> None) (lower pfx) node"
      by (rule terminal_inv_mono) simp
    then have "None \<notin> set (collect_all_words node [] 8)" by (rule collect_no_None)
    then obtain ys where ys: "those (collect_all_words node [] 8) = Some ys"
      using those_Some_iff by blast
    have "\<forall>w \<in> set ys. prefix (lower pfx) w \<and> w \<in> lower ` set ws"
      using collect_words_below [OF inv' ys] by auto
    with False node ys show ?thesis by (simp add: get_suggestions_def)
  qed
qed

text \<open>The instance: \<open>Car\<close>, \<open>cAt\<close> and \<open>dog\<close> inserted, queried with \<open>CA\<close>.\<close>

theorem search_sound_witness:
  "get_suggestions ''CA'' (fold insert_word [''Car'', ''cAt'', ''dog''] trie_init) =
     Inr ([''car'', ''cat''],
       walk ''ca'' (root (fold insert_word [''Car'', ''cAt'', ''dog''] trie_init))) \<and>
   prefix (lower ''CA'') ''car'' \<and> ''car'' \<in> lower ` set [''Car'', ''cAt'', ''dog''] \<and>
   prefix (lower ''CA'') ''cat'' \<and> ''cat'' \<in> lower ` set [''Car'', ''cAt'', ''dog'']"
proof -
  have ev: "get_suggestions ''CA'' (fold insert_word [''Car'', ''cAt'', ''dog''] trie_init) =
     Inr ([''car'', ''cat''],
       walk ''ca'' (root (fold insert_word [''Car'', ''cAt'', ''dog''] trie_init)))"
    by code_simp
  from search_sound [of "''CA''" "[''Car'', ''cAt'', ''dog'']"]
  show ?thesis unfolding ev by simp
qed

subsection \<open>The marks set by \<open>highlight_path\<close>\<close>

lemma nodes_at_shift:
  "nodes_at path node = map (\<lambda>(q, n). (path @ q, n)) (nodes_at [] node)"
proof (induction node arbitrary: path rule: TrieNode_induct)
  case (TrieNode c cs e w x y p s)
  have "nodes_at (path @ [k]) n = map (\<lambda>(q, n). (path @ q, n)) (nodes_at [k] n)"
    if "(k, n) \<in> set cs" for k n
    using TrieNode [OF that, of "path @ [k]"] TrieNode [OF that, of "[k]"]
    by (simp add: case_prod_unfold comp_def)
  then show ?case
    by (auto simp: map_concat comp_def case_prod_unfold intro!: arg_cong [where f = concat])
qed

lemma nodes_at_Cons_iff:
  "(q, n) \<in> set (nodes_at [k] child) \<longleftrightarrow>
     (\<exists>q'. q = k # q' \<and> (q', n) \<in> set (nodes_at [] child))"
  by (subst nodes_at_shift) auto

lemma nodes_at_Nil_node:
  "(q, n) \<in> set (nodes_at [] (TrieNode c cs e w x y p s)) \<longleftrightarrow>
     (q = [] \<and> n = TrieNode c cs e w x y p s) \<or>
     (\<exists>k child q'. (k, child) \<in> set cs \<and> q = k # q' \<and> (q', n) \<in> set (nodes_at [] child))"
proof -
  have "(q, n) \<in> set (nodes_at [] (TrieNode c cs e w x y p s)) \<longleftrightarrow>
     (q = [] \<and> n = TrieNode c cs e w x y p s) \<or>
     (\<exists>k child. (k, child) \<in> set cs \<and> (q, n) \<in> set (nodes_at [k] child))"
    by auto
  then show ?thesis unfolding nodes_at_Cons_iff by blast
qed

lemma set_update_distinct:
  "distinct (map fst al) \<Longrightarrow>
     (k', v') \<in> set (AList.update k v al) \<longleftrightarrow>
       (k' = k \<and> v' = v) \<or> (k' \<noteq> k \<and> (k', v') \<in> set al)"
  by (induction al) (auto simp: rev_image_eqI)

lemma nodes_at_Nil_root: "([], n) \<in> set (nodes_at [] node) \<longleftrightarrow> n = node"
  by (cases node) (simp only: nodes_at_Nil_node, simp)

lemma clear_below_node:
  "clear_below (TrieNode c cs e w x y p s) \<longleftrightarrow>
     \<not> s \<and> (\<forall>(k, child) \<in> set cs. clear_below child \<and> \<not> is_path_node child)"
proof
  assume L: "clear_below (TrieNode c cs e w x y p s)"
  have "\<not> s"
    using L nodes_at_self [of "[]" "TrieNode c cs e w x y p s"]
    unfolding clear_below_def by fastforce
  moreover have "clear_below child \<and> \<not> is_path_node child" if "(k, child) \<in> set cs" for k child
  proof -
    have "\<not> is_in_subtree n \<and> \<not> is_path_node n" if "(q', n) \<in> set (nodes_at [] child)" for q' n
    proof -
      from that \<open>(k, child) \<in> set cs\<close>
      have "(k # q', n) \<in> set (nodes_at [] (TrieNode c cs e w x y p s))"
        unfolding nodes_at_Nil_node by blast
      with L show ?thesis unfolding clear_below_def by fastforce
    qed
    then show ?thesis
      using nodes_at_self [of "[]" child] unfolding clear_below_def by fastforce
  qed
  ultimately show "\<not> s \<and> (\<forall>(k, child) \<in> set cs. clear_below child \<and> \<not> is_path_node child)"
    by blast
next
  assume R: "\<not> s \<and> (\<forall>(k, child) \<in> set cs. clear_below child \<and> \<not> is_path_node child)"
  have "\<not> is_in_subtree n \<and> (q \<noteq> [] \<longrightarrow> \<not> is_path_node n)"
    if "(q, n) \<in> set (nodes_at [] (TrieNode c cs e w x y p s))" for q n
  proof -
    from that consider "q = []" "n = TrieNode c cs e w x y p s"
      | k child q' where "(k, child) \<in> set cs" "q = k # q'" "(q', n) \<in> set (nodes_at [] child)"
      unfolding nodes_at_Nil_node by blast
    then show ?thesis
    proof cases
      case 1
      with R show ?thesis by simp
    next
      case 2
      from R 2(1) have c: "clear_below child" "\<not> is_path_node child" by auto
      show ?thesis
      proof (cases "q' = []")
        case True
        with 2(3) have "n = child" by (simp add: nodes_at_Nil_root)
        with c 2(3) show ?thesis unfolding clear_below_def by fastforce
      next
        case False
        with c(1) 2(3) show ?thesis unfolding clear_below_def by fastforce
      qed
    qed
  qed
  then show "clear_below (TrieNode c cs e w x y p s)"
    unfolding clear_below_def by blast
qed

lemma set_path_node_simps [simp]:
  "children (set_path_node m) = children m"
  "is_path_node (set_path_node m)"
  "is_in_subtree (set_path_node m) = is_in_subtree m"
  "dict_ok (set_path_node m) = dict_ok m"
  by (cases m; simp)+

lemma clear_below_set_path: "clear_below m \<Longrightarrow> clear_below (set_path_node m)"
  by (cases m) (simp add: clear_below_node)

lemma matched_set_path [simp]: "matched r (set_path_node m) = matched r m"
  by (cases r) simp_all

lemma walk_set_path_None [simp]: "walk r (set_path_node m) = None \<longleftrightarrow> walk r m = None"
  by (cases r) simp_all

lemma mark_path_flags:
  assumes "dict_ok node" "clear_below node"
    and "(q, n) \<in> set (nodes_at [] (mark_path r node))"
  shows "(is_path_node n \<longleftrightarrow>
            (q = [] \<and> is_path_node node) \<or> (q \<noteq> [] \<and> prefix q (matched r node))) \<and>
         (is_in_subtree n \<longleftrightarrow> walk r node \<noteq> None \<and> prefix r q)"
  using assms
proof (induction r arbitrary: node q n)
  case Nil
  from Nil.prems(3) obtain n0 where n0: "(q, n0) \<in> set (nodes_at [] node)"
    "n = mark_suggestion_subtree n0"
    by (auto simp: nodes_at_mark)
  from n0(1) Nil.prems(2) have "q \<noteq> [] \<Longrightarrow> \<not> is_path_node n0"
    by (auto simp: clear_below_def)
  moreover from n0(1) have "q = [] \<Longrightarrow> n0 = node"
    by (simp add: nodes_at_Nil_root)
  ultimately show ?case using n0(2) by auto
next
  case (Cons ch rest)
  obtain c cs e w x y p s where node: "node = TrieNode c cs e w x y p s" by (cases node)
  from Cons.prems(1) have dist: "distinct (map fst cs)"
    and dk: "\<And>k child. (k, child) \<in> set cs \<Longrightarrow> dict_ok child"
    unfolding node by auto
  from Cons.prems(2) have s: "\<not> s"
    and cl: "\<And>k child. (k, child) \<in> set cs \<Longrightarrow> clear_below child \<and> \<not> is_path_node child"
    unfolding node clear_below_node by auto
  show ?case
  proof (cases "map_of cs ch")
    case None
    from Cons.prems(3) None have mem: "(q, n) \<in> set (nodes_at [] node)" by (simp add: node)
    from mem Cons.prems(2) have "\<not> is_in_subtree n" "q \<noteq> [] \<Longrightarrow> \<not> is_path_node n"
      by (auto simp: clear_below_def)
    moreover from mem have "q = [] \<Longrightarrow> n = node" by (simp add: nodes_at_Nil_root)
    ultimately show ?thesis using None by (cases "q = []") (auto simp: node)
  next
    case (Some m)
    let ?m' = "mark_path rest (set_path_node m)"
    from Some have m_in: "(ch, m) \<in> set cs" by (rule map_of_SomeD)
    have res: "mark_path (ch # rest) node = TrieNode c (AList.update ch ?m' cs) e w x y p s"
      using Some by (simp add: node)
    from Cons.prems(3) consider
      (root) "q = []" "n = TrieNode c (AList.update ch ?m' cs) e w x y p s"
      | (sub) k child q' where "(k, child) \<in> set (AList.update ch ?m' cs)" "q = k # q'"
          "(q', n) \<in> set (nodes_at [] child)"
      unfolding res nodes_at_Nil_node by blast
    then show ?thesis
    proof cases
      case root
      with s Some show ?thesis by (simp add: node)
    next
      case sub
      from sub(1) dist consider (hit) "k = ch" "child = ?m'" | (miss) "k \<noteq> ch" "(k, child) \<in> set cs"
        by (auto simp: set_update_distinct)
      then show ?thesis
      proof cases
        case hit
        have "dict_ok (set_path_node m)" "clear_below (set_path_node m)"
          using dk [OF m_in] cl [OF m_in] by (simp_all add: clear_below_set_path)
        from Cons.IH [OF this sub(3) [unfolded hit(2)]]
        show ?thesis using Some sub(2) hit(1) by (cases q') (auto simp: node)
      next
        case miss
        from cl [OF miss(2)] sub(3) have "\<not> is_in_subtree n" "\<not> is_path_node n"
          using nodes_at_Nil_root [of n child]
          by (cases "q' = []"; auto simp: clear_below_def)+
        with miss(1) sub(2) Some show ?thesis by (auto simp: node)
      qed
    qed
  qed
qed

lemma update_as_map:
  "distinct (map fst al) \<Longrightarrow> map_of al k = Some v0 \<Longrightarrow>
     AList.update k v al = map (\<lambda>(k', v'). if k' = k then (k, v) else (k', v')) al"
proof (induction al)
  case Nil
  then show ?case by simp
next
  case (Cons a al)
  obtain k1 v1 where a: "a = (k1, v1)" by (cases a)
  show ?case
  proof (cases "k1 = k")
    case True
    with Cons.prems a have "k \<notin> fst ` set al" by auto
    then have "map (\<lambda>(k', v'). if k' = k then (k, v) else (k', v')) al = al"
      by (intro map_idI) (auto simp: rev_image_eqI)
    with True a show ?thesis by simp
  next
    case False
    with Cons a show ?thesis by simp
  qed
qed

lemma paths_reset:
  "map fst (nodes_at path (reset_highlights node)) = map fst (nodes_at path node)"
  by (simp add: nodes_at_reset case_prod_unfold comp_def)

lemma paths_mark:
  "map fst (nodes_at path (mark_suggestion_subtree node)) = map fst (nodes_at path node)"
  by (simp add: nodes_at_mark case_prod_unfold comp_def)

lemma paths_set_path:
  "map fst (nodes_at path (set_path_node node)) = map fst (nodes_at path node)"
  by (cases node) simp

lemma paths_node:
  "map fst (nodes_at path (TrieNode c cs e w x y p s)) =
     path # concat (map (\<lambda>(k, n). map fst (nodes_at (path @ [k]) n)) cs)"
  by (simp add: map_concat comp_def case_prod_unfold)

lemma paths_mark_path:
  "dict_ok node \<Longrightarrow> map fst (nodes_at path (mark_path r node)) = map fst (nodes_at path node)"
proof (induction r arbitrary: node path)
  case Nil
  then show ?case by (simp add: paths_mark)
next
  case (Cons ch rest)
  obtain c cs e w x y p s where node: "node = TrieNode c cs e w x y p s" by (cases node)
  show ?case
  proof (cases "map_of cs ch")
    case None
    then show ?thesis by (simp add: node)
  next
    case (Some m)
    let ?m' = "mark_path rest (set_path_node m)"
    from Cons.prems have dist: "distinct (map fst cs)" by (simp add: node)
    from Some have "(ch, m) \<in> set cs" by (rule map_of_SomeD)
    with Cons.prems have "dict_ok (set_path_node m)" by (auto simp: node)
    then have m': "map fst (nodes_at (path @ [ch]) ?m') = map fst (nodes_at (path @ [ch]) m)"
      by (simp add: Cons.IH paths_set_path)
    have "map (\<lambda>(k, n). map fst (nodes_at (path @ [k]) n))
            (map (\<lambda>(k', v'). if k' = ch then (ch, ?m') else (k', v')) cs) =
          map (\<lambda>(k, n). map fst (nodes_at (path @ [k]) n)) cs"
    proof (simp only: map_map, rule map_cong [OF refl])
      fix kv assume "kv \<in> set cs"
      obtain k v where kv: "kv = (k, v)" by (cases kv)
      show "((\<lambda>(k, n). map fst (nodes_at (path @ [k]) n)) \<circ>
              (\<lambda>(k', v'). if k' = ch then (ch, ?m') else (k', v'))) kv =
            (case kv of (k, n) \<Rightarrow> map fst (nodes_at (path @ [k]) n))"
      proof (cases "k = ch")
        case True
        with \<open>kv \<in> set cs\<close> kv dist Some have "v = m" by simp
        with True kv m' show ?thesis by simp
      next
        case False
        with kv show ?thesis by simp
      qed
    qed
    then show ?thesis
      using Some by (simp only: node mark_path.simps option.case paths_node
          update_as_map [OF dist Some])
  qed
qed

lemma distinct_concat_keys:
  assumes "distinct (map g xs)"
    and "\<And>x. x \<in> set xs \<Longrightarrow> distinct (F x)"
    and "\<And>x y. x \<in> set xs \<Longrightarrow> y \<in> set xs \<Longrightarrow> g x \<noteq> g y \<Longrightarrow> set (F x) \<inter> set (F y) = {}"
  shows "distinct (concat (map F xs))"
  using assms
proof (induction xs)
  case Nil
  then show ?case by simp
next
  case (Cons a xs)
  have "distinct (concat (map F xs))"
    using Cons.prems by (intro Cons.IH) auto
  moreover have "set (F a) \<inter> set (F y) = {}" if "y \<in> set xs" for y
    using Cons.prems(1) that by (intro Cons.prems(3)) auto
  ultimately show ?case using Cons.prems(2) by auto
qed

lemma distinct_paths: "dict_ok node \<Longrightarrow> distinct (map fst (nodes_at path node))"
proof (induction node arbitrary: path rule: TrieNode_induct)
  case (TrieNode c cs e w x y p s)
  let ?F = "\<lambda>(k, n). map fst (nodes_at (path @ [k]) n)"
  have pre: "prefix (path @ [k]) q" if "q \<in> set (?F (k, n))" for k n q
    using that nodes_at_prefix by fastforce
  have "distinct (concat (map ?F cs))"
  proof (rule distinct_concat_keys [where g = fst])
    show "distinct (map fst cs)" using TrieNode.prems by simp
  next
    fix kv assume kv: "kv \<in> set cs"
    obtain k n where eq: "kv = (k, n)" by (cases kv)
    from kv TrieNode.prems have "dict_ok n" unfolding eq by auto
    with kv have "distinct (map fst (nodes_at (path @ [k]) n))"
      unfolding eq by (rule TrieNode.IH)
    then show "distinct (?F kv)" unfolding eq by simp
  next
    fix a b assume "a \<in> set cs" "b \<in> set cs" "fst a \<noteq> fst b"
    show "set (?F a) \<inter> set (?F b) = {}"
    proof (rule ccontr)
      assume "set (?F a) \<inter> set (?F b) \<noteq> {}"
      then obtain q where "q \<in> set (?F a)" "q \<in> set (?F b)" by blast
      then have "prefix (path @ [fst a]) q" "prefix (path @ [fst b]) q"
        using pre [of q "fst a" "snd a"] pre [of q "fst b" "snd b"] by simp_all
      then have "fst a = fst b" by (auto simp: prefix_def)
      with \<open>fst a \<noteq> fst b\<close> show False by simp
    qed
  qed
  moreover have "path \<notin> set (concat (map ?F cs))"
  proof
    assume "path \<in> set (concat (map ?F cs))"
    then obtain k n where "path \<in> set (?F (k, n))" by auto
    from pre [OF this] show False by (simp add: prefix_def)
  qed
  ultimately show ?case unfolding paths_node by simp
qed

lemma walk_in_nodes: "walk q node = Some n \<Longrightarrow> (q, n) \<in> set (nodes_at [] node)"
  using walk_nodes_at [of q node n "[]"] nodes_at_self [of q n] by auto

lemma walk_append:
  "walk (q @ r) node = (case walk q node of None \<Rightarrow> None | Some m \<Rightarrow> walk r m)"
  by (induction q arbitrary: node) (auto split: option.splits)

lemma matched_full: "walk r node \<noteq> None \<Longrightarrow> matched r node = r"
  by (induction r arbitrary: node) (auto split: option.splits)

lemma matched_prefix: "prefix (matched r node) r"
  by (induction r arbitrary: node) (auto split: option.splits)

lemma filter_unique:
  "distinct (map f xs) \<Longrightarrow> a \<in> f ` set xs \<Longrightarrow> length (filter (\<lambda>x. f x = a) xs) = 1"
proof (induction xs)
  case Nil
  then show ?case by simp
next
  case (Cons x xs)
  show ?case
  proof (cases "f x = a")
    case True
    with Cons.prems have "filter (\<lambda>x. f x = a) xs = []"
      by (auto simp: filter_empty_conv rev_image_eqI)
    with True show ?thesis by simp
  next
    case False
    with Cons show ?thesis by auto
  qed
qed

lemma map_of_map_children:
  "map_of (map (\<lambda>(k, n). (k, f n)) cs) k = map_option f (map_of cs k)"
  by (induction cs) auto

lemma walk_reset: "walk r (reset_highlights node) = map_option reset_highlights (walk r node)"
proof (induction r arbitrary: node)
  case Nil
  then show ?case by simp
next
  case (Cons ch rest)
  then show ?case
    by (cases node) (auto simp: map_of_map_children split: option.splits)
qed

lemma matched_reset: "matched r (reset_highlights node) = matched r node"
proof (induction r arbitrary: node)
  case Nil
  then show ?case by simp
next
  case (Cons ch rest)
  then show ?case
    by (cases node) (auto simp: map_of_map_children split: option.splits)
qed

lemma dict_ok_reset: "dict_ok node \<Longrightarrow> dict_ok (reset_highlights node)"
proof (induction node rule: TrieNode_induct)
  case (TrieNode c cs e w x y p s)
  then show ?case by (auto simp: comp_def case_prod_unfold)
qed

lemma clear_below_reset: "clear_below (reset_highlights node) \<and> \<not> is_path_node (reset_highlights node)"
  using reset_clear_at [of _ _ "[]" node] nodes_at_self [of "[]" "reset_highlights node"]
  unfolding clear_below_def by fastforce

lemma highlight_flags:
  assumes "dict_ok (root t)" "pfx \<noteq> []"
    and "(q, n) \<in> set (nodes_at [] (root (highlight_path pfx t)))"
  shows "(is_path_node n \<longleftrightarrow> q \<noteq> [] \<and> prefix q (matched (lower pfx) (root t))) \<and>
         (is_in_subtree n \<longleftrightarrow> walk (lower pfx) (root t) \<noteq> None \<and> prefix (lower pfx) q)"
proof -
  let ?r = "reset_highlights (root t)"
  from assms(2,3) have mem: "(q, n) \<in> set (nodes_at [] (mark_path (lower pfx) ?r))"
    by (simp add: highlight_path_def)
  have "dict_ok ?r" "clear_below ?r" "\<not> is_path_node ?r"
    using assms(1) dict_ok_reset clear_below_reset by auto
  with mark_path_flags [OF this(1,2) mem] show ?thesis
    by (simp add: matched_reset walk_reset)
qed

lemma highlight_paths:
  "dict_ok (root t) \<Longrightarrow>
     map fst (nodes_at [] (root (highlight_path pfx t))) = map fst (nodes_at [] (root t))"
  by (simp add: highlight_path_def Let_def paths_reset paths_mark_path dict_ok_reset)

text \<open>
  Claim C1, as amended. On a tree whose child lists are dicts, for a non-empty prefix
  that does not fully match, \<open>highlight_path\<close> leaves \<open>is_in_subtree\<close> false at every
  node, and \<open>is_path_node\<close> is true exactly at the nodes reached by the leading
  characters of the lowercased prefix before the first missing edge (the root excluded).
  When the first character has no edge, every mark is false.
\<close>

theorem highlight_mismatch:
  assumes "dict_ok (root t)" and "pfx \<noteq> []" and "walk (lower pfx) (root t) = None"
  shows "\<forall>(q, n) \<in> set (nodes_at [] (root (highlight_path pfx t))).
           \<not> is_in_subtree n \<and>
           (is_path_node n \<longleftrightarrow> q \<noteq> [] \<and> prefix q (matched (lower pfx) (root t)))"
  using highlight_flags [OF assms(1,2)] assms(3) by blast

text \<open>The instance: the tree holding \<open>car\<close> and the prefix \<open>cz\<close>, which matches \<open>c\<close> only.\<close>

theorem highlight_mismatch_witness:
  "dict_ok (root (insert_word ''car'' trie_init)) \<and>
   walk (lower ''cz'') (root (insert_word ''car'' trie_init)) = None \<and>
   matched (lower ''cz'') (root (insert_word ''car'' trie_init)) = ''c'' \<and>
   list_all (\<lambda>(q, n). \<not> is_in_subtree n \<and> (is_path_node n \<longleftrightarrow> q \<noteq> [] \<and> prefix q ''c''))
     (nodes_at [] (root (highlight_path ''cz'' (insert_word ''car'' trie_init))))"
proof -
  have h1: "dict_ok (root (insert_word ''car'' trie_init))" by code_simp
  have h2: "''cz'' \<noteq> []" by simp
  have h3: "walk (lower ''cz'') (root (insert_word ''car'' trie_init)) = None" by code_simp
  have m: "matched (lower ''cz'') (root (insert_word ''car'' trie_init)) = ''c''" by code_simp
  from highlight_mismatch [OF h1 h2 h3] h1 h3 m show ?thesis
    by (simp add: list_all_iff)
qed

text \<open>
  Claim C1 as stated fails on this instance: the prefix \<open>cz\<close> does not match, and the
  node of \<open>c\<close>, the second of the four nodes in preorder, keeps \<open>is_path_node\<close>.
\<close>

theorem highlight_mismatch_counterexample:
  "walk (lower ''cz'') (root (insert_word ''car'' trie_init)) = None \<and>
   map is_path_node (nodes (root (highlight_path ''cz'' (insert_word ''car'' trie_init)))) =
     [False, True, False, False]"
  by code_simp

text \<open>
  Claim C5. On a tree whose child lists are dicts, after \<open>highlight_path\<close> with a non-empty
  prefix that fully matches: \<open>is_path_node\<close> is true exactly at the nodes whose path is a
  non-empty leading part of the lowercased prefix, \<open>is_in_subtree\<close> is true exactly at
  the nodes whose path extends the lowercased prefix, both are true exactly at the path
  of the prefix itself; every leading part of the prefix is the path of a node; exactly
  one node carries both marks; and the root is not marked as on the path.
\<close>

theorem highlight_matching:
  assumes "dict_ok (root t)" and "pfx \<noteq> []" and "walk (lower pfx) (root t) \<noteq> None"
  shows "(\<forall>(q, n) \<in> set (nodes_at [] (root (highlight_path pfx t))).
            (is_path_node n \<longleftrightarrow> q \<noteq> [] \<and> prefix q (lower pfx)) \<and>
            (is_in_subtree n \<longleftrightarrow> prefix (lower pfx) q) \<and>
            (is_path_node n \<and> is_in_subtree n \<longleftrightarrow> q = lower pfx)) \<and>
         (\<forall>q. prefix q (lower pfx) \<longrightarrow>
            q \<in> fst ` set (nodes_at [] (root (highlight_path pfx t)))) \<and>
         length (filter (\<lambda>(q, n). is_path_node n \<and> is_in_subtree n)
           (nodes_at [] (root (highlight_path pfx t)))) = 1 \<and>
         \<not> is_path_node (root (highlight_path pfx t))"
proof -
  let ?ns = "nodes_at [] (root (highlight_path pfx t))"
  from assms(2) have ne: "lower pfx \<noteq> []" by (simp add: lower_def)
  have flags: "(is_path_node n \<longleftrightarrow> q \<noteq> [] \<and> prefix q (lower pfx)) \<and>
               (is_in_subtree n \<longleftrightarrow> prefix (lower pfx) q)"
    if "(q, n) \<in> set ?ns" for q n
    using highlight_flags [OF assms(1,2) that] assms(3) by (simp add: matched_full)
  have both: "(is_path_node n \<and> is_in_subtree n) = (q = lower pfx)"
    if "(q, n) \<in> set ?ns" for q n
    using flags [OF that] ne by (auto dest: prefix_order.antisym)
  have paths: "map fst ?ns = map fst (nodes_at [] (root t))"
    using assms(1) by (rule highlight_paths)
  have ex: "q \<in> fst ` set ?ns" if "prefix q (lower pfx)" for q
  proof -
    from that obtain r where "lower pfx = q @ r" by (auto simp: prefix_def)
    with assms(3) obtain m where "walk q (root t) = Some m"
      by (auto simp: walk_append split: option.splits)
    then have "(q, m) \<in> set (nodes_at [] (root t))" by (rule walk_in_nodes)
    then have "q \<in> set (map fst (nodes_at [] (root t)))" by force
    then show ?thesis unfolding paths [symmetric] by simp
  qed
  have "filter (\<lambda>(q, n). is_path_node n \<and> is_in_subtree n) ?ns =
        filter (\<lambda>x. fst x = lower pfx) ?ns"
  proof (rule filter_cong [OF refl])
    fix x assume "x \<in> set ?ns"
    then have "(fst x, snd x) \<in> set ?ns" by simp
    from both [OF this]
    show "(case x of (q, n) \<Rightarrow> is_path_node n \<and> is_in_subtree n) = (fst x = lower pfx)"
      by (simp add: case_prod_unfold)
  qed
  moreover have "length (filter (\<lambda>x. fst x = lower pfx) ?ns) = 1"
  proof (rule filter_unique)
    show "distinct (map fst ?ns)" unfolding paths using assms(1) by (rule distinct_paths)
    show "lower pfx \<in> fst ` set ?ns" by (rule ex) simp
  qed
  ultimately have one: "length (filter (\<lambda>(q, n). is_path_node n \<and> is_in_subtree n) ?ns) = 1"
    by simp
  have "\<not> is_path_node (root (highlight_path pfx t))"
    using flags [OF nodes_at_self [of "[]" "root (highlight_path pfx t)"]] by simp
  with flags both ex one show ?thesis by blast
qed

text \<open>The instance: the dictionary \<open>car\<close>, \<open>cat\<close> and the prefix \<open>Ca\<close>.\<close>

theorem highlight_matching_witness:
  "dict_ok (root (fold insert_word [''car'', ''cat''] trie_init)) \<and>
   walk (lower ''Ca'') (root (fold insert_word [''car'', ''cat''] trie_init)) \<noteq> None \<and>
   list_all (\<lambda>(q, n). (is_path_node n \<longleftrightarrow> q \<noteq> [] \<and> prefix q (lower ''Ca'')) \<and>
                      (is_in_subtree n \<longleftrightarrow> prefix (lower ''Ca'') q))
     (nodes_at [] (root (highlight_path ''Ca'' (fold insert_word [''car'', ''cat''] trie_init)))) \<and>
   length (filter (\<lambda>(q, n). is_path_node n \<and> is_in_subtree n)
     (nodes_at [] (root (highlight_path ''Ca'' (fold insert_word [''car'', ''cat''] trie_init)))))
     = 1 \<and>
   \<not> is_path_node (root (highlight_path ''Ca'' (fold insert_word [''car'', ''cat''] trie_init)))"
proof -
  have h1: "dict_ok (root (fold insert_word [''car'', ''cat''] trie_init))" by code_simp
  have h2: "''Ca'' \<noteq> []" by simp
  have h3: "walk (lower ''Ca'') (root (fold insert_word [''car'', ''cat''] trie_init)) \<noteq> None"
    by code_simp
  from highlight_matching [OF h1 h2 h3] h1 h3 show ?thesis
    by (simp add: list_all_iff case_prod_unfold)
qed

subsection \<open>Trees built by insertion have dicts as child lists\<close>

lemma dict_ok_new_node: "dict_ok (new_node c)"
  by (simp add: new_node_def)

lemma insert_walk_char: "node_char (insert_walk w r node) = node_char node"
  by (cases node; cases r) (simp_all add: Let_def)

lemma dict_ok_insert_walk: "dict_ok node \<Longrightarrow> dict_ok (insert_walk w r node)"
proof (induction r arbitrary: node)
  case Nil
  then show ?case by (cases node) simp
next
  case (Cons ch rest)
  obtain c cs e wd x y p s where node: "node = TrieNode c cs e wd x y p s" by (cases node)
  let ?child = "case map_of cs ch of None \<Rightarrow> new_node ch | Some n \<Rightarrow> n"
  have "dict_ok ?child \<and> node_char ?child = ch"
    using Cons.prems unfolding node
    by (auto simp: new_node_def split: option.splits dest!: map_of_SomeD)
  then have "dict_ok (insert_walk w rest ?child)" "node_char (insert_walk w rest ?child) = ch"
    by (simp_all add: Cons.IH insert_walk_char)
  with Cons.prems show ?case
    unfolding node using set_update_subset [of ch "insert_walk w rest ?child" cs]
    by (auto simp: Let_def distinct_update)
qed

lemma dict_ok_insert_word: "dict_ok (root t) \<Longrightarrow> dict_ok (root (insert_word w t))"
  by (simp add: insert_word_def dict_ok_insert_walk)

lemma dict_ok_inserts: "dict_ok (root (fold insert_word ws trie_init))"
proof -
  have "dict_ok (root t) \<Longrightarrow> dict_ok (root (fold insert_word ws t))" for t
    by (induction ws arbitrary: t) (simp_all add: dict_ok_insert_word)
  then show ?thesis by (simp add: trie_init_def dict_ok_new_node)
qed

subsection \<open>The position pass\<close>

lemma fold_positions:
  fixes pos :: "TrieNode \<Rightarrow> int \<Rightarrow> TrieNode" and wd :: "TrieNode \<Rightarrow> int"
  assumes "sorted (map fst ys)" "distinct (map fst ys)" "distinct (map fst acc)"
    and "set ys \<subseteq> set acc"
  shows "snd (fold (\<lambda>(k, child) (cur, acc). (cur + wd child, AList.update k (pos child cur) acc))
            ys (cur, acc)) =
         map (\<lambda>(k, n). if k \<in> fst ` set ys
                then (k, pos n (cur + sum_list (map (\<lambda>(k', n'). wd n')
                                        (filter (\<lambda>(k', n'). k' < k) ys))))
                else (k, n)) acc"
  using assms
proof (induction ys arbitrary: cur acc)
  case Nil
  then show ?case by (simp add: case_prod_unfold)
next
  case (Cons a ys)
  obtain k0 n0 where a: "a = (k0, n0)" by (cases a)
  let ?acc1 = "AList.update k0 (pos n0 cur) acc"
  from Cons.prems a have in_acc: "map_of acc k0 = Some n0" by simp
  have acc1: "?acc1 = map (\<lambda>(k', v'). if k' = k0 then (k0, pos n0 cur) else (k', v')) acc"
    using Cons.prems(3) in_acc by (rule update_as_map)
  from Cons.prems a have k0_notin: "k0 \<notin> fst ` set ys" and gt: "\<And>k. k \<in> fst ` set ys \<Longrightarrow> k0 < k"
    by (auto simp: less_le)
  have sub: "set ys \<subseteq> set ?acc1"
  proof
    fix kv assume kv: "kv \<in> set ys"
    with k0_notin have "fst kv \<noteq> k0" by auto
    moreover from kv Cons.prems(4) have "kv \<in> set acc" by auto
    ultimately show "kv \<in> set ?acc1" unfolding acc1 by (cases kv) force
  qed
  have dist1: "distinct (map fst ?acc1)"
    using Cons.prems(3) by (simp add: distinct_update)
  from Cons.prems have "sorted (map fst ys)" "distinct (map fst ys)" by simp_all
  note IH = Cons.IH [OF this dist1 sub, of "cur + wd n0"]
  have "snd (fold (\<lambda>(k, child) (cur, acc). (cur + wd child, AList.update k (pos child cur) acc))
            (a # ys) (cur, acc)) =
        map (\<lambda>(k, n). if k \<in> fst ` set ys
                then (k, pos n (cur + wd n0 + sum_list (map (\<lambda>(k', n'). wd n')
                                        (filter (\<lambda>(k', n'). k' < k) ys))))
                else (k, n)) ?acc1"
    using IH by (simp add: a)
  also have "\<dots> = map (\<lambda>(k, n). if k \<in> fst ` set (a # ys)
                then (k, pos n (cur + sum_list (map (\<lambda>(k', n'). wd n')
                                        (filter (\<lambda>(k', n'). k' < k) (a # ys)))))
                else (k, n)) acc"
    unfolding acc1 map_map
  proof (rule map_cong [OF refl])
    fix kv assume kv: "kv \<in> set acc"
    obtain k n where eq: "kv = (k, n)" by (cases kv)
    show "((\<lambda>(k, n). if k \<in> fst ` set ys
                then (k, pos n (cur + wd n0 + sum_list (map (\<lambda>(k', n'). wd n')
                                        (filter (\<lambda>(k', n'). k' < k) ys))))
                else (k, n)) \<circ> (\<lambda>(k', v'). if k' = k0 then (k0, pos n0 cur) else (k', v'))) kv =
          (case kv of (k, n) \<Rightarrow> if k \<in> fst ` set (a # ys)
                then (k, pos n (cur + sum_list (map (\<lambda>(k', n'). wd n')
                                        (filter (\<lambda>(k', n'). k' < k) (a # ys)))))
                else (k, n))"
    proof (cases "k = k0")
      case True
      with kv eq in_acc Cons.prems(3) have n: "n = n0" by simp
      have "filter (\<lambda>(k', n'). k' < k0) ys = []"
        using gt by (auto simp: filter_empty_conv rev_image_eqI dest: less_asym)
      with True n k0_notin show ?thesis by (simp add: eq a)
    next
      case False
      show ?thesis
      proof (cases "k \<in> fst ` set ys")
        case True
        with gt have "k0 < k" by simp
        with True False show ?thesis by (simp add: eq a add.assoc)
      next
        case notin: False
        with False show ?thesis by (simp add: eq a)
      qed
    qed
  qed
  finally show ?case .
qed

lemma sum_filter_insort:
  fixes g :: "'a \<Rightarrow> int"
  shows "sum_list (map g (filter P (insort_key f a xs))) =
         (if P a then g a else 0) + sum_list (map g (filter P xs))"
  by (induction xs) auto

lemma sum_filter_sort:
  fixes g :: "'a \<Rightarrow> int"
  shows "sum_list (map g (filter P (sort_key f xs))) = sum_list (map g (filter P xs))"
  by (induction xs) (auto simp: sum_filter_insort)

lemma position_node_children:
  assumes "dict_ok node"
  shows "children (position_node v node x y) =
         map (\<lambda>(k, n). (k, position_node v n (x + offset v (children node) k) (y + level_height v)))
           (children node)"
proof -
  obtain c cs e w x0 y0 p s where node: "node = TrieNode c cs e w x0 y0 p s" by (cases node)
  let ?f = "\<lambda>(k :: char, n). node_char n"
  let ?ys = "sort_key ?f cs"
  from assms have dist: "distinct (map fst cs)"
    and chr: "\<And>k n. (k, n) \<in> set cs \<Longrightarrow> node_char n = k"
    unfolding node by auto
  have same: "map ?f ?ys = map fst ?ys"
    by (rule map_cong [OF refl]) (auto dest: chr)
  have "sorted (map ?f ?ys)" by (rule sorted_sort_key)
  then have sorted: "sorted (map fst ?ys)" unfolding same .
  have dist_ys: "distinct (map fst ?ys)"
    using dist by (simp add: distinct_map)
  have sub: "set ?ys \<subseteq> set cs" by simp
  have keys: "fst ` set ?ys = fst ` set cs" by simp
  have "children (position_node v node x y) =
        snd (fold (\<lambda>(k, child) (cur, acc).
                (cur + (\<lambda>n. get_leaf_count n * horizontal_spacing v) child,
                 AList.update k ((\<lambda>n cur. position_node v n cur (y + level_height v)) child cur) acc))
              ?ys (x, cs))"
    by (simp add: node position_node.simps [of v c cs] Let_def)
  also have "\<dots> = map (\<lambda>(k, n). if k \<in> fst ` set ?ys
                then (k, position_node v n (x + sum_list (map (\<lambda>(k', n'). get_leaf_count n' * horizontal_spacing v)
                                        (filter (\<lambda>(k', n'). k' < k) ?ys))) (y + level_height v))
                else (k, n)) cs"
    by (rule fold_positions [OF sorted dist_ys dist sub])
  also have "\<dots> = map (\<lambda>(k, n). (k, position_node v n (x + offset v cs k) (y + level_height v))) cs"
    unfolding keys offset_def sum_filter_sort
    by (rule map_cong [OF refl]) (auto simp: rev_image_eqI)
  finally show ?thesis by (simp add: node)
qed

lemma position_node_fields [simp]:
  "node_x (position_node v node x y) = x + (get_leaf_count node * horizontal_spacing v) div 2"
  "node_y (position_node v node x y) = y"
  "node_char (position_node v node x y) = node_char node"
  "is_end_of_word (position_node v node x y) = is_end_of_word node"
  "node_word (position_node v node x y) = node_word node"
  "is_path_node (position_node v node x y) = is_path_node node"
  "is_in_subtree (position_node v node x y) = is_in_subtree node"
  by (cases node; simp add: position_node.simps Let_def)+

lemma get_leaf_count_children:
  "get_leaf_count node =
     (if children node = [] then 1
      else sum_list (map (\<lambda>(k, n). get_leaf_count n) (children node)))"
  by (cases node) simp

lemma leaf_count_position:
  "dict_ok node \<Longrightarrow> get_leaf_count (position_node v node x y) = get_leaf_count node"
proof (induction node arbitrary: x y rule: TrieNode_induct)
  case (TrieNode c cs e w x0 y0 p s)
  let ?node = "TrieNode c cs e w x0 y0 p s"
  have "map (\<lambda>(k, n). get_leaf_count n) (children (position_node v ?node x y)) =
        map (\<lambda>(k, n). get_leaf_count n) (children ?node)"
    unfolding position_node_children [OF TrieNode.prems] map_map
  proof (rule map_cong [OF refl])
    fix kv assume kv: "kv \<in> set (children ?node)"
    obtain k n where eq: "kv = (k, n)" by (cases kv)
    from kv TrieNode.prems have "dict_ok n" "(k, n) \<in> set cs" unfolding eq by auto
    then show "((\<lambda>(k, n). get_leaf_count n) \<circ>
        (\<lambda>(k, n). (k, position_node v n (x + offset v (children ?node) k) (y + level_height v)))) kv =
        (case kv of (k, n) \<Rightarrow> get_leaf_count n)"
      unfolding eq by (simp add: TrieNode.IH)
  qed
  moreover have "children (position_node v ?node x y) = [] \<longleftrightarrow> cs = []"
    by (simp add: position_node_children [OF TrieNode.prems])
  ultimately show ?case
    by (subst get_leaf_count_children) simp
qed

lemma leaf_count_pos: "0 < get_leaf_count node"
proof (induction node rule: TrieNode_induct)
  case (TrieNode c cs e w x y p s)
  show ?case
  proof (cases cs)
    case Nil
    then show ?thesis by simp
  next
    case (Cons a rest)
    have "\<And>kv. kv \<in> set cs \<Longrightarrow> 0 < (case kv of (k, n) \<Rightarrow> get_leaf_count n)"
      using TrieNode.IH by auto
    then have all: "\<And>kv. kv \<in> set rest \<Longrightarrow> 0 \<le> (case kv of (k, n) \<Rightarrow> get_leaf_count n)"
      and hd: "0 < (case a of (k, n) \<Rightarrow> get_leaf_count n)"
      unfolding Cons by (auto simp: less_imp_le)
    have "0 \<le> sum_list (map (\<lambda>(k, n). get_leaf_count n) rest)"
      by (rule sum_list_nonneg) (auto dest: all)
    with hd show ?thesis by (simp add: Cons)
  qed
qed

lemma calculate_node_positions_eq:
  "calculate_node_positions v t = Trie (position_node v (root t) (start_x v t) (start_y v))"
  by (simp add: calculate_node_positions_def start_x_def Let_def max_def)

lemma dict_ok_children:
  "dict_ok node \<Longrightarrow> distinct (map fst (children node))"
  "dict_ok node \<Longrightarrow> (k, n) \<in> set (children node) \<Longrightarrow> dict_ok n"
  by (cases node; auto)+

lemma dict_ok_walk: "dict_ok node \<Longrightarrow> walk q node = Some n \<Longrightarrow> dict_ok n"
proof (induction q arbitrary: node)
  case Nil
  then show ?case by simp
next
  case (Cons k q)
  from Cons.prems(2) obtain m where m: "map_of (children node) k = Some m" "walk q m = Some n"
    by (auto split: option.splits)
  from m(1) have "(k, m) \<in> set (children node)" by (rule map_of_SomeD)
  with Cons.prems(1) have "dict_ok m" by (rule dict_ok_children(2))
  then show ?case using m(2) by (rule Cons.IH)
qed

lemma position_nodes:
  assumes "dict_ok node" and "(q, n') \<in> set (nodes_at [] (position_node v node x y))"
  shows "\<exists>n. walk q node = Some n \<and>
           n' = position_node v n (spec_span_start v node x q)
                  (y + int (length q) * level_height v)"
  using assms
proof (induction node arbitrary: q n' x y rule: TrieNode_induct)
  case (TrieNode c cs e w x0 y0 p s)
  let ?node = "TrieNode c cs e w x0 y0 p s"
  let ?P = "position_node v ?node x y"
  have ch: "children ?P =
      map (\<lambda>(k, n). (k, position_node v n (x + offset v cs k) (y + level_height v))) cs"
    using position_node_children [OF TrieNode.prems(1)] by simp
  obtain c' cs' e' w' x' y' p' s' where P: "?P = TrieNode c' cs' e' w' x' y' p' s'"
    by (cases ?P)
  with ch have cs': "cs' =
      map (\<lambda>(k, n). (k, position_node v n (x + offset v cs k) (y + level_height v))) cs"
    by simp
  from TrieNode.prems(2) consider (root) "q = []" "n' = ?P"
    | (sub) k child' q' where "(k, child') \<in> set cs'" "q = k # q'"
        "(q', n') \<in> set (nodes_at [] child')"
    unfolding P nodes_at_Nil_node by blast
  then show ?case
  proof cases
    case root
    then show ?thesis by simp
  next
    case sub
    from sub(1) obtain child where child: "(k, child) \<in> set cs"
      "child' = position_node v child (x + offset v cs k) (y + level_height v)"
      unfolding cs' by auto
    from TrieNode.prems(1) child(1) have ok: "dict_ok child" and dist: "distinct (map fst cs)"
      by auto
    from dist child(1) have mo: "map_of cs k = Some child" by simp
    from TrieNode.IH [OF child(1) ok sub(3) [unfolded child(2)]]
    obtain n where n: "walk q' child = Some n"
      "n' = position_node v n (spec_span_start v child (x + offset v cs k) q')
              (y + level_height v + int (length q') * level_height v)"
      by blast
    have "y + level_height v + int (length q') * level_height v =
          y + int (length q) * level_height v"
      unfolding sub(2) by (simp add: algebra_simps)
    with n mo show ?thesis unfolding sub(2) by simp
  qed
qed

lemma walk_snoc:
  "walk (q @ [k]) node = Some c \<longleftrightarrow>
     (\<exists>m. walk q node = Some m \<and> map_of (children m) k = Some c)"
  by (auto simp: walk_append split: option.splits)

lemma spec_span_snoc:
  "walk q node = Some m \<Longrightarrow> map_of (children m) k = Some c \<Longrightarrow>
     spec_span_start v node x (q @ [k]) = spec_span_start v node x q + offset v (children m) k"
  by (induction q arbitrary: node x) (auto split: option.splits)

lemma width_nonneg: "0 \<le> u \<Longrightarrow> 0 \<le> get_leaf_count n * u"
  using leaf_count_pos [of n] by simp

lemma offset_mono:
  assumes "0 \<le> horizontal_spacing v" and "(k1, c1) \<in> set cs" and "k1 < k2"
  shows "offset v cs k1 + get_leaf_count c1 * horizontal_spacing v \<le> offset v cs k2"
  using assms(2)
proof (induction cs)
  case Nil
  then show ?case by simp
next
  case (Cons a cs)
  obtain k n where a: "a = (k, n)" by (cases a)
  have nn: "0 \<le> get_leaf_count n * horizontal_spacing v"
    using assms(1) by (rule width_nonneg)
  have weak: "offset v cs k1 \<le> offset v cs k2"
  proof -
    have "\<And>cs. offset v cs k1 \<le> offset v cs k2"
    proof -
      fix cs show "offset v cs k1 \<le> offset v cs k2"
      proof (induction cs)
        case Nil
        then show ?case by (simp add: offset_def)
      next
        case (Cons b cs)
        obtain kb nb where b: "b = (kb, nb)" by (cases b)
        have "0 \<le> get_leaf_count nb * horizontal_spacing v"
          using assms(1) by (rule width_nonneg)
        with Cons assms(3) show ?case by (auto simp: offset_def b)
      qed
    qed
    then show ?thesis .
  qed
  show ?case
  proof (cases "(k1, c1) = a")
    case True
    with a have "k = k1" "n = c1" by simp_all
    with weak assms(3) show ?thesis by (simp add: offset_def a)
  next
    case False
    with Cons have "offset v cs k1 + get_leaf_count c1 * horizontal_spacing v \<le> offset v cs k2"
      by simp
    with nn assms(3) show ?thesis by (auto simp: offset_def a)
  qed
qed

lemma offset_nonneg: "0 \<le> horizontal_spacing v \<Longrightarrow> 0 \<le> offset v cs k"
  unfolding offset_def by (rule sum_list_nonneg) (auto simp: width_nonneg)

lemma offset_total:
  assumes "0 \<le> horizontal_spacing v" and "(k, c) \<in> set cs"
  shows "offset v cs k + get_leaf_count c * horizontal_spacing v \<le>
         sum_list (map (\<lambda>(k, n). get_leaf_count n * horizontal_spacing v) cs)"
  using assms(2)
proof (induction cs)
  case Nil
  then show ?case by simp
next
  case (Cons a cs)
  obtain ka na where a: "a = (ka, na)" by (cases a)
  have nn: "0 \<le> get_leaf_count na * horizontal_spacing v"
    using assms(1) by (rule width_nonneg)
  have le_all: "offset v cs k \<le> sum_list (map (\<lambda>(k, n). get_leaf_count n * horizontal_spacing v) cs)"
    for cs
  proof (induction cs)
    case Nil
    then show ?case by (simp add: offset_def)
  next
    case (Cons b cs)
    obtain kb nb where b: "b = (kb, nb)" by (cases b)
    have "0 \<le> get_leaf_count nb * horizontal_spacing v"
      using assms(1) by (rule width_nonneg)
    with Cons show ?case by (auto simp: offset_def b)
  qed
  show ?case
  proof (cases "(k, c) = a")
    case True
    with a have "ka = k" "na = c" by simp_all
    with le_all [of cs] show ?thesis by (simp add: offset_def a)
  next
    case False
    with Cons have "offset v cs k + get_leaf_count c * horizontal_spacing v \<le>
         sum_list (map (\<lambda>(k, n). get_leaf_count n * horizontal_spacing v) cs)" by simp
    with nn show ?thesis by (auto simp: offset_def a)
  qed
qed

lemma children_width:
  "children node \<noteq> [] \<Longrightarrow>
     sum_list (map (\<lambda>(k, n). get_leaf_count n * u) (children node)) = get_leaf_count node * u"
proof -
  have "sum_list (map (\<lambda>(k, n). get_leaf_count n * u) cs) =
        sum_list (map (\<lambda>(k, n). get_leaf_count n) cs) * u" for cs :: "(char \<times> TrieNode) list"
    by (induction cs) (auto simp: algebra_simps)
  then show "children node \<noteq> [] \<Longrightarrow> ?thesis"
    by (subst (2) get_leaf_count_children) simp
qed

lemma paths_children:
  "map fst (nodes_at path node) =
     path # concat (map (\<lambda>(k, n). map fst (nodes_at (path @ [k]) n)) (children node))"
  by (cases node) (simp only: paths_node TrieNode.sel)

lemma paths_position:
  "dict_ok node \<Longrightarrow>
     map fst (nodes_at path (position_node v node x y)) = map fst (nodes_at path node)"
proof (induction node arbitrary: path x y rule: TrieNode_induct)
  case (TrieNode c cs e w x0 y0 p s)
  let ?node = "TrieNode c cs e w x0 y0 p s"
  have "map (\<lambda>(k, n). map fst (nodes_at (path @ [k]) n)) (children (position_node v ?node x y)) =
        map (\<lambda>(k, n). map fst (nodes_at (path @ [k]) n)) (children ?node)"
    unfolding position_node_children [OF TrieNode.prems] map_map
  proof (rule map_cong [OF refl])
    fix kv assume kv: "kv \<in> set (children ?node)"
    obtain k n where eq: "kv = (k, n)" by (cases kv)
    from kv TrieNode.prems have "dict_ok n" "(k, n) \<in> set cs" unfolding eq by auto
    then show "((\<lambda>(k, n). map fst (nodes_at (path @ [k]) n)) \<circ>
        (\<lambda>(k, n). (k, position_node v n (x + offset v (children ?node) k) (y + level_height v)))) kv =
        (case kv of (k, n) \<Rightarrow> map fst (nodes_at (path @ [k]) n))"
      unfolding eq by (simp add: TrieNode.IH)
  qed
  then show ?case
    by (simp only: paths_children [of path "position_node v ?node x y"]
        paths_children [of path ?node])
qed

lemma offset_step:
  assumes "k1 < k2" and "\<forall>(k, n) \<in> set cs. \<not> (k1 < k \<and> k < k2)"
  shows "offset v cs k2 = offset v cs k1 +
           sum_list (map (\<lambda>(k, n). get_leaf_count n * horizontal_spacing v)
             (filter (\<lambda>(k, n). k = k1) cs))"
  using assms(2)
proof (induction cs)
  case Nil
  then show ?case by (simp add: offset_def)
next
  case (Cons a cs)
  obtain k n where a: "a = (k, n)" by (cases a)
  from Cons.prems have nb: "\<not> (k1 < k \<and> k < k2)" and rest: "\<forall>(k, n) \<in> set cs. \<not> (k1 < k \<and> k < k2)"
    by (auto simp: a)
  from Cons.IH [OF rest] have IH: "offset v cs k2 = offset v cs k1 +
           sum_list (map (\<lambda>(k, n). get_leaf_count n * horizontal_spacing v)
             (filter (\<lambda>(k, n). k = k1) cs))" .
  have "offset v (a # cs) k = (if fst a < k then get_leaf_count (snd a) * horizontal_spacing v else 0)
          + offset v cs k" for k
    by (simp add: offset_def case_prod_unfold)
  with IH nb assms(1) show ?case by (auto simp: a)
qed

lemma filter_key_single:
  "distinct (map fst cs) \<Longrightarrow> (k1, c1) \<in> set cs \<Longrightarrow> filter (\<lambda>(k, n). k = k1) cs = [(k1, c1)]"
proof (induction cs)
  case Nil
  then show ?case by simp
next
  case (Cons a cs)
  obtain k n where a: "a = (k, n)" by (cases a)
  show ?case
  proof (cases "k = k1")
    case True
    with Cons.prems a have "k1 \<notin> fst ` set cs" "n = c1" by (auto simp: rev_image_eqI)
    then have "filter (\<lambda>(k, n). k = k1) cs = []"
      by (auto simp: filter_empty_conv rev_image_eqI)
    with True \<open>n = c1\<close> show ?thesis by (simp add: a)
  next
    case False
    with Cons a show ?thesis by auto
  qed
qed

lemma offset_adjacent:
  assumes "distinct (map fst cs)" "(k1, c1) \<in> set cs" "k1 < k2"
    and "\<forall>(k, n) \<in> set cs. \<not> (k1 < k \<and> k < k2)"
  shows "offset v cs k2 = offset v cs k1 + get_leaf_count c1 * horizontal_spacing v"
  using offset_step [OF assms(3,4), of v] filter_key_single [OF assms(1,2)] by simp

lemma offset_first:
  assumes "\<forall>(k', n) \<in> set cs. \<not> k' < k"
  shows "offset v cs k = 0"
proof -
  from assms have "filter (\<lambda>(k', n). k' < k) cs = []"
    by (auto simp: filter_empty_conv)
  then show ?thesis by (simp add: offset_def)
qed

text \<open>
  The marking and the layout keep the child lists dicts, as insertion does, so every
  tree the program reaches satisfies \<open>dict_ok\<close>.
\<close>

lemma mark_fields_char [simp]: "node_char (mark_path r node) = node_char node"
  by (cases node; cases r) (simp_all split: option.splits)

lemma dict_ok_mark_subtree: "dict_ok node \<Longrightarrow> dict_ok (mark_suggestion_subtree node)"
proof (induction node rule: TrieNode_induct)
  case (TrieNode c cs e w x y p s)
  then show ?case by (auto simp: comp_def case_prod_unfold)
qed

lemma dict_ok_mark_path: "dict_ok node \<Longrightarrow> dict_ok (mark_path r node)"
proof (induction r arbitrary: node)
  case Nil
  then show ?case by (simp add: dict_ok_mark_subtree)
next
  case (Cons ch rest)
  obtain c cs e w x y p s where node: "node = TrieNode c cs e w x y p s" by (cases node)
  show ?case
  proof (cases "map_of cs ch")
    case None
    with Cons.prems show ?thesis by (simp add: node)
  next
    case (Some m)
    then have "(ch, m) \<in> set cs" by (rule map_of_SomeD)
    with Cons.prems have "dict_ok (set_path_node m)" "node_char m = ch" by (auto simp: node)
    then have "dict_ok (mark_path rest (set_path_node m))"
      "node_char (mark_path rest (set_path_node m)) = ch"
      by (simp_all add: Cons.IH) (cases m, simp)
    with Cons.prems Some show ?thesis
      unfolding node using set_update_subset [of ch "mark_path rest (set_path_node m)" cs]
      by (auto simp: distinct_update)
  qed
qed

lemma dict_ok_highlight: "dict_ok (root t) \<Longrightarrow> dict_ok (root (highlight_path pfx t))"
  by (simp add: highlight_path_def Let_def dict_ok_reset dict_ok_mark_path)

lemma dict_ok_position: "dict_ok node \<Longrightarrow> dict_ok (position_node v node x y)"
proof (induction node arbitrary: x y rule: TrieNode_induct)
  case (TrieNode c cs e w x0 y0 p s)
  let ?node = "TrieNode c cs e w x0 y0 p s"
  let ?P = "position_node v ?node x y"
  have ch: "children ?P =
      map (\<lambda>(k, n). (k, position_node v n (x + offset v cs k) (y + level_height v))) cs"
    using position_node_children [OF TrieNode.prems] by simp
  have "distinct (map fst (children ?P))"
    unfolding ch using TrieNode.prems by (simp add: comp_def case_prod_unfold)
  moreover have "node_char n = k \<and> dict_ok n" if "(k, n) \<in> set (children ?P)" for k n
  proof -
    from that obtain m where m: "(k, m) \<in> set cs"
      "n = position_node v m (x + offset v cs k) (y + level_height v)"
      unfolding ch by auto
    with TrieNode.prems have "dict_ok m" "node_char m = k" by auto
    with m show ?thesis by (simp add: TrieNode.IH)
  qed
  ultimately show ?case by (cases ?P) auto
qed

lemma dict_ok_layout: "dict_ok (root t) \<Longrightarrow> dict_ok (root (calculate_node_positions v t))"
  by (simp add: calculate_node_positions_eq dict_ok_position)

lemma layout_orig:
  assumes "dict_ok (root t)"
    and "(q, n) \<in> set (nodes_at [] (root (calculate_node_positions v t)))"
  shows "\<exists>m. walk q (root t) = Some m \<and> dict_ok m \<and>
           n = position_node v m (span_of v t q) (start_y v + int (length q) * level_height v) \<and>
           get_leaf_count n = get_leaf_count m"
proof -
  from assms(2)
  have "(q, n) \<in> set (nodes_at [] (position_node v (root t) (start_x v t) (start_y v)))"
    by (simp add: calculate_node_positions_eq)
  from position_nodes [OF assms(1) this]
  obtain m where m: "walk q (root t) = Some m"
    "n = position_node v m (span_of v t q) (start_y v + int (length q) * level_height v)"
    unfolding span_of_def by blast
  from assms(1) m(1) have "dict_ok m" by (rule dict_ok_walk)
  with m show ?thesis by (auto simp: leaf_count_position)
qed

lemma layout_exists:
  assumes "dict_ok (root t)" and "walk q (root t) = Some m"
  shows "\<exists>n. (q, n) \<in> set (nodes_at [] (root (calculate_node_positions v t)))"
proof -
  from assms(2) have "(q, m) \<in> set (nodes_at [] (root t))" by (rule walk_in_nodes)
  then have "q \<in> set (map fst (nodes_at [] (root t)))" by force
  also have "map fst (nodes_at [] (root t)) =
      map fst (nodes_at [] (root (calculate_node_positions v t)))"
    using assms(1) by (simp add: calculate_node_positions_eq paths_position)
  finally show ?thesis by auto
qed

lemma layout_node:
  assumes "dict_ok (root t)" and "0 < horizontal_spacing v"
    and "(q, n) \<in> set (nodes_at [] (root (calculate_node_positions v t)))"
  shows "node_x n = span_of v t q + (get_leaf_count n * horizontal_spacing v) div 2 \<and>
         span_of v t q \<le> node_x n \<and>
         node_x n < span_of v t q + get_leaf_count n * horizontal_spacing v \<and>
         node_y n = start_y v + int (length q) * level_height v \<and>
         (children n \<noteq> [] \<longrightarrow>
            sum_list (map (\<lambda>(k, c). get_leaf_count c * horizontal_spacing v) (children n)) =
            get_leaf_count n * horizontal_spacing v)"
proof -
  from layout_orig [OF assms(1,3)] obtain m where m: "n = position_node v m (span_of v t q)
      (start_y v + int (length q) * level_height v)" "get_leaf_count n = get_leaf_count m"
    by blast
  have "0 < get_leaf_count n * horizontal_spacing v"
    using leaf_count_pos [of n] assms(2) by simp
  then have "0 \<le> (get_leaf_count n * horizontal_spacing v) div 2 \<and>
      (get_leaf_count n * horizontal_spacing v) div 2 < get_leaf_count n * horizontal_spacing v"
    by auto
  with m show ?thesis by (auto simp: children_width)
qed

lemma layout_parent:
  assumes "dict_ok (root t)" and "0 < horizontal_spacing v"
    and "(q @ [k], n) \<in> set (nodes_at [] (root (calculate_node_positions v t)))"
    and "(q, p) \<in> set (nodes_at [] (root (calculate_node_positions v t)))"
  shows "span_of v t q \<le> span_of v t (q @ [k]) \<and>
         span_of v t (q @ [k]) + get_leaf_count n * horizontal_spacing v \<le>
           span_of v t q + get_leaf_count p * horizontal_spacing v"
proof -
  let ?u = "horizontal_spacing v"
  from assms(2) have u0: "0 \<le> ?u" by simp
  from layout_orig [OF assms(1,3)] obtain c where c: "walk (q @ [k]) (root t) = Some c"
    "get_leaf_count n = get_leaf_count c" by blast
  from c(1) obtain m where m: "walk q (root t) = Some m" "map_of (children m) k = Some c"
    unfolding walk_snoc by blast
  from layout_orig [OF assms(1,4)] m(1) have p: "get_leaf_count p = get_leaf_count m" by auto
  from m(2) have mem: "(k, c) \<in> set (children m)" by (rule map_of_SomeD)
  then have ne: "children m \<noteq> []" by auto
  have span: "span_of v t (q @ [k]) = span_of v t q + offset v (children m) k"
    unfolding span_of_def using m by (rule spec_span_snoc)
  from offset_total [OF u0 mem] children_width [OF ne, of ?u]
  have "offset v (children m) k + get_leaf_count c * ?u \<le> get_leaf_count m * ?u" by simp
  with offset_nonneg [OF u0, of "children m" k] span c(2) p show ?thesis by simp
qed

lemma layout_siblings_orig:
  assumes "dict_ok (root t)"
    and "(q @ [k1], n1) \<in> set (nodes_at [] (root (calculate_node_positions v t)))"
    and "(q @ [k2], n2) \<in> set (nodes_at [] (root (calculate_node_positions v t)))"
  shows "\<exists>m c1. walk q (root t) = Some m \<and> dict_ok m \<and> (k1, c1) \<in> set (children m) \<and>
           get_leaf_count n1 = get_leaf_count c1 \<and>
           span_of v t (q @ [k1]) = span_of v t q + offset v (children m) k1 \<and>
           span_of v t (q @ [k2]) = span_of v t q + offset v (children m) k2"
proof -
  from layout_orig [OF assms(1,2)] obtain c1 where c1: "walk (q @ [k1]) (root t) = Some c1"
    "get_leaf_count n1 = get_leaf_count c1" by blast
  from layout_orig [OF assms(1,3)] obtain c2 where c2: "walk (q @ [k2]) (root t) = Some c2"
    by blast
  from c1(1) obtain m where m: "walk q (root t) = Some m" "map_of (children m) k1 = Some c1"
    unfolding walk_snoc by blast
  from c2 m(1) have m2: "map_of (children m) k2 = Some c2"
    unfolding walk_snoc by auto
  from m(2) have mem: "(k1, c1) \<in> set (children m)" by (rule map_of_SomeD)
  from assms(1) m(1) have "dict_ok m" by (rule dict_ok_walk)
  moreover have "span_of v t (q @ [k1]) = span_of v t q + offset v (children m) k1"
    "span_of v t (q @ [k2]) = span_of v t q + offset v (children m) k2"
    unfolding span_of_def using m m2 by (auto intro: spec_span_snoc)
  ultimately show ?thesis using m(1) mem c1(2) by blast
qed

lemma layout_siblings:
  assumes "dict_ok (root t)" and "0 < horizontal_spacing v"
    and "(q @ [k1], n1) \<in> set (nodes_at [] (root (calculate_node_positions v t)))"
    and "(q @ [k2], n2) \<in> set (nodes_at [] (root (calculate_node_positions v t)))"
    and "k1 < k2"
  shows "span_of v t (q @ [k1]) + get_leaf_count n1 * horizontal_spacing v \<le>
           span_of v t (q @ [k2]) \<and>
         node_x n1 < node_x n2"
proof -
  from assms(2) have u0: "0 \<le> horizontal_spacing v" by simp
  from layout_siblings_orig [OF assms(1,3,4)] obtain m c1 where
    m: "(k1, c1) \<in> set (children m)" "get_leaf_count n1 = get_leaf_count c1"
    "span_of v t (q @ [k1]) = span_of v t q + offset v (children m) k1"
    "span_of v t (q @ [k2]) = span_of v t q + offset v (children m) k2" by blast
  from offset_mono [OF u0 m(1) assms(5)] m(2,3,4)
  have le: "span_of v t (q @ [k1]) + get_leaf_count n1 * horizontal_spacing v \<le>
      span_of v t (q @ [k2])" by simp
  with layout_node [OF assms(1,2,3)] layout_node [OF assms(1,2,4)] show ?thesis by linarith
qed

lemma layout_adjacent:
  assumes "dict_ok (root t)"
    and "(q @ [k1], n1) \<in> set (nodes_at [] (root (calculate_node_positions v t)))"
    and "(q @ [k2], n2) \<in> set (nodes_at [] (root (calculate_node_positions v t)))"
    and "k1 < k2"
    and none: "\<forall>k n. (q @ [k], n) \<in> set (nodes_at [] (root (calculate_node_positions v t))) \<longrightarrow>
                 \<not> (k1 < k \<and> k < k2)"
  shows "span_of v t (q @ [k2]) =
           span_of v t (q @ [k1]) + get_leaf_count n1 * horizontal_spacing v"
proof -
  from layout_siblings_orig [OF assms(1,2,3)] obtain m c1 where
    m: "walk q (root t) = Some m" "dict_ok m" "(k1, c1) \<in> set (children m)"
    "get_leaf_count n1 = get_leaf_count c1"
    "span_of v t (q @ [k1]) = span_of v t q + offset v (children m) k1"
    "span_of v t (q @ [k2]) = span_of v t q + offset v (children m) k2" by blast
  from m(2) have dist: "distinct (map fst (children m))" by (rule dict_ok_children(1))
  have "\<not> (k1 < k \<and> k < k2)" if "(k, c) \<in> set (children m)" for k c
  proof -
    from dist that have "map_of (children m) k = Some c" by simp
    with m(1) have "walk (q @ [k]) (root t) = Some c" unfolding walk_snoc by blast
    from layout_exists [OF assms(1) this] none show ?thesis by blast
  qed
  then have "\<forall>(k, n) \<in> set (children m). \<not> (k1 < k \<and> k < k2)" by blast
  from offset_adjacent [OF dist m(3) assms(4) this] m(4,5,6) show ?thesis by simp
qed

lemma layout_first:
  assumes "dict_ok (root t)"
    and "(q @ [k], n) \<in> set (nodes_at [] (root (calculate_node_positions v t)))"
    and none: "\<forall>k' n'. (q @ [k'], n') \<in> set (nodes_at [] (root (calculate_node_positions v t))) \<longrightarrow>
                 \<not> k' < k"
  shows "span_of v t (q @ [k]) = span_of v t q"
proof -
  from layout_siblings_orig [OF assms(1,2,2)] obtain m where
    m: "walk q (root t) = Some m" "dict_ok m"
    "span_of v t (q @ [k]) = span_of v t q + offset v (children m) k" by blast
  from m(2) have dist: "distinct (map fst (children m))" by (rule dict_ok_children(1))
  have "\<not> k' < k" if "(k', c) \<in> set (children m)" for k' c
  proof -
    from dist that have "map_of (children m) k' = Some c" by simp
    with m(1) have "walk (q @ [k']) (root t) = Some c" unfolding walk_snoc by blast
    from layout_exists [OF assms(1) this] none show ?thesis by blast
  qed
  then have "\<forall>(k', n) \<in> set (children m). \<not> k' < k" by blast
  from offset_first [OF this] m(3) show ?thesis by simp
qed

text \<open>
  Claim C6. On a tree whose child lists are dicts, with a positive spacing, after
  \<open>calculate_node_positions\<close>: every node's \<open>node_x\<close> is the start of its span plus half
  its width (integer division), lies at or after the start and strictly before the end
  of the span, and its \<open>node_y\<close> is \<open>start_y\<close> plus its depth times \<open>level_height\<close>; the
  widths of the children of a node add up to the width of the node; the span of a child
  lies inside the span of its parent; of two children of one node, the span of the one
  with the smaller character ends at or before the start of the other's, and its
  \<open>node_x\<close> is strictly smaller; when no sibling lies between the two in character
  order, the second span starts exactly where the first ends; and the span of the child
  with the smallest character starts where the parent's span starts.
\<close>

theorem layout_invariant:
  assumes "dict_ok (root t)" and "0 < horizontal_spacing v"
  shows "(\<forall>(q, n) \<in> set (nodes_at [] (root (calculate_node_positions v t))).
            node_x n = span_of v t q + (get_leaf_count n * horizontal_spacing v) div 2 \<and>
            span_of v t q \<le> node_x n \<and>
            node_x n < span_of v t q + get_leaf_count n * horizontal_spacing v \<and>
            node_y n = start_y v + int (length q) * level_height v \<and>
            (children n \<noteq> [] \<longrightarrow>
               sum_list (map (\<lambda>(k, c). get_leaf_count c * horizontal_spacing v) (children n)) =
               get_leaf_count n * horizontal_spacing v)) \<and>
         (\<forall>q k n p. (q @ [k], n) \<in> set (nodes_at [] (root (calculate_node_positions v t))) \<and>
                    (q, p) \<in> set (nodes_at [] (root (calculate_node_positions v t))) \<longrightarrow>
            span_of v t q \<le> span_of v t (q @ [k]) \<and>
            span_of v t (q @ [k]) + get_leaf_count n * horizontal_spacing v \<le>
              span_of v t q + get_leaf_count p * horizontal_spacing v) \<and>
         (\<forall>q k1 k2 n1 n2.
            (q @ [k1], n1) \<in> set (nodes_at [] (root (calculate_node_positions v t))) \<and>
            (q @ [k2], n2) \<in> set (nodes_at [] (root (calculate_node_positions v t))) \<and>
            k1 < k2 \<longrightarrow>
            span_of v t (q @ [k1]) + get_leaf_count n1 * horizontal_spacing v \<le>
              span_of v t (q @ [k2]) \<and>
            node_x n1 < node_x n2 \<and>
            ((\<forall>k n. (q @ [k], n) \<in> set (nodes_at [] (root (calculate_node_positions v t))) \<longrightarrow>
                 \<not> (k1 < k \<and> k < k2)) \<longrightarrow>
             span_of v t (q @ [k2]) =
               span_of v t (q @ [k1]) + get_leaf_count n1 * horizontal_spacing v)) \<and>
         (\<forall>q k n. (q @ [k], n) \<in> set (nodes_at [] (root (calculate_node_positions v t))) \<and>
            (\<forall>k' n'. (q @ [k'], n') \<in> set (nodes_at [] (root (calculate_node_positions v t))) \<longrightarrow>
                 \<not> k' < k) \<longrightarrow>
            span_of v t (q @ [k]) = span_of v t q)"
proof (intro conjI allI impI ballI)
  fix x assume "x \<in> set (nodes_at [] (root (calculate_node_positions v t)))"
  then have "(fst x, snd x) \<in> set (nodes_at [] (root (calculate_node_positions v t)))" by simp
  from layout_node [OF assms this]
  show "case x of (q, n) \<Rightarrow>
            node_x n = span_of v t q + (get_leaf_count n * horizontal_spacing v) div 2 \<and>
            span_of v t q \<le> node_x n \<and>
            node_x n < span_of v t q + get_leaf_count n * horizontal_spacing v \<and>
            node_y n = start_y v + int (length q) * level_height v \<and>
            (children n \<noteq> [] \<longrightarrow>
               sum_list (map (\<lambda>(k, c). get_leaf_count c * horizontal_spacing v) (children n)) =
               get_leaf_count n * horizontal_spacing v)"
    by (simp add: case_prod_unfold)
qed (use assms in \<open>auto dest: layout_parent layout_siblings layout_adjacent layout_first\<close>)

text \<open>
  The instance: \<open>car\<close>, \<open>cat\<close> and \<open>b\<close> inserted, laid out with the constants of
  \<^verbatim>\<open>TrieVisualizer.__init__\<close>. The child \<open>b\<close>, inserted last, is placed left of \<open>c\<close>.
\<close>

theorem layout_invariant_witness:
  "dict_ok (root (fold insert_word [''car'', ''cat'', ''b''] trie_init)) \<and>
   0 < horizontal_spacing visualizer_init \<and>
   list_all (\<lambda>(q, n).
       node_x n = span_of visualizer_init (fold insert_word [''car'', ''cat'', ''b''] trie_init) q +
         (get_leaf_count n * horizontal_spacing visualizer_init) div 2 \<and>
       span_of visualizer_init (fold insert_word [''car'', ''cat'', ''b''] trie_init) q \<le> node_x n \<and>
       node_x n < span_of visualizer_init (fold insert_word [''car'', ''cat'', ''b''] trie_init) q +
         get_leaf_count n * horizontal_spacing visualizer_init \<and>
       node_y n = start_y visualizer_init + int (length q) * level_height visualizer_init)
     (nodes_at [] (root (calculate_node_positions visualizer_init
        (fold insert_word [''car'', ''cat'', ''b''] trie_init)))) \<and>
   map (\<lambda>(q, n). (q, node_x n, node_y n))
     (nodes_at [] (root (calculate_node_positions visualizer_init
        (fold insert_word [''car'', ''cat'', ''b''] trie_init)))) =
     [('''', 500, 100), (''c'', 520, 165), (''ca'', 520, 230), (''car'', 500, 295),
      (''cat'', 540, 295), (''b'', 460, 165)]"
proof -
  have h1: "dict_ok (root (fold insert_word [''car'', ''cat'', ''b''] trie_init))"
    by (rule dict_ok_inserts)
  have h2: "0 < horizontal_spacing visualizer_init" by (simp add: visualizer_init_def)
  have ev: "map (\<lambda>(q, n). (q, node_x n, node_y n))
     (nodes_at [] (root (calculate_node_positions visualizer_init
        (fold insert_word [''car'', ''cat'', ''b''] trie_init)))) =
     [('''', 500, 100), (''c'', 520, 165), (''ca'', 520, 230), (''car'', 500, 295),
      (''cat'', 540, 295), (''b'', 460, 165)]"
    by code_simp
  from layout_invariant [OF h1 h2] have "list_all (\<lambda>(q, n).
       node_x n = span_of visualizer_init (fold insert_word [''car'', ''cat'', ''b''] trie_init) q +
         (get_leaf_count n * horizontal_spacing visualizer_init) div 2 \<and>
       span_of visualizer_init (fold insert_word [''car'', ''cat'', ''b''] trie_init) q \<le> node_x n \<and>
       node_x n < span_of visualizer_init (fold insert_word [''car'', ''cat'', ''b''] trie_init) q +
         get_leaf_count n * horizontal_spacing visualizer_init \<and>
       node_y n = start_y visualizer_init + int (length q) * level_height visualizer_init)
     (nodes_at [] (root (calculate_node_positions visualizer_init
        (fold insert_word [''car'', ''cat'', ''b''] trie_init))))"
    unfolding list_all_iff by fast
  with h1 h2 ev show ?thesis by blast
qed

text \<open>
  Claim C7. After \<open>calculate_node_positions\<close> the root's \<open>node_x\<close> is
  \<open>max 20 ((C - W) div 2) + W div 2\<close>, with \<open>C\<close> the width of the drawing area and \<open>W\<close>
  the leaf count of the root times the spacing, and its \<open>node_y\<close> is \<open>start_y\<close>. On a tree
  that holds only the root the pass, a total function, places the root at half the
  screen width and at the top offset 100 under the constants of the source.
\<close>

theorem root_centered:
  "node_x (root (calculate_node_positions v t)) =
     max 20 ((draw_area_width v - get_leaf_count (root t) * horizontal_spacing v) div 2) +
       (get_leaf_count (root t) * horizontal_spacing v) div 2 \<and>
   node_y (root (calculate_node_positions v t)) = start_y v \<and>
   (children (root t) = [] \<longrightarrow>
      node_x (root (calculate_node_positions visualizer_init t)) = SCREEN_WIDTH div 2 \<and>
      node_y (root (calculate_node_positions visualizer_init t)) = 100)"
proof -
  have "get_leaf_count (root t) = 1" if "children (root t) = []"
    using that by (subst get_leaf_count_children) simp
  then show ?thesis
    by (simp add: calculate_node_positions_eq start_x_def visualizer_init_def SCREEN_WIDTH_def)
qed

text \<open>The instance: the tree of \<^verbatim>\<open>Trie()\<close>.\<close>

theorem root_centered_witness:
  "children (root trie_init) = [] \<and>
   node_x (root (calculate_node_positions visualizer_init trie_init)) = 500 \<and>
   node_y (root (calculate_node_positions visualizer_init trie_init)) = 100"
proof -
  have h: "children (root trie_init) = []" by (simp add: trie_init_def new_node_def)
  from root_centered [of visualizer_init trie_init] h show ?thesis
    by (simp add: SCREEN_WIDTH_def)
qed

end
